theory Spec2Isabelle
  imports Main "HOL-Library.Word"
begin

unbundle bit_operations_syntax

section \<open>Common types\<close>

text \<open>
  Bytes of buffers are \<open>uint8_t\<close>; file offsets (\<open>off_t\<close>, and the \<open>uint64_t\<close> they are
  serialised as) are 64-bit words. A C string is modelled by its content, the characters
  before the terminating NUL; the terminator is read back by \<open>c_at\<close> at index
  \<open>length s\<close>.
\<close>

type_synonym byte = "8 word"
type_synonym off_t = "64 word"

text \<open>The process either goes on or is aborted by \<open>die\<close>; a thread that pops an
  empty queue waits for another thread, which a model of one thread alone reports as
  \<open>WouldBlock\<close>; a \<open>NULL\<close> block pointer that is dereferenced is \<open>Crash\<close>.\<close>

datatype error = Die string | WouldBlock | Crash

definition cstring :: "string \<Rightarrow> bool" where
  "cstring s = (CHR 0x00 \<notin> set s)"

definition c_at :: "string \<Rightarrow> nat \<Rightarrow> char" where
  "c_at s k = (if k < length s then s ! k else CHR 0x00)"

definition strlen :: "string \<Rightarrow> nat" where
  "strlen s = length (takeWhile (\<lambda>c. c \<noteq> CHR 0x00) s)"

text \<open>\<open>strncmp\<close>: at most \<open>n\<close> characters are compared, as unsigned bytes, and the
  comparison stops after a NUL.\<close>

fun strncmp :: "string \<Rightarrow> string \<Rightarrow> nat \<Rightarrow> int" where
  "strncmp a b 0 = 0"
| "strncmp a b (Suc n) =
     (let x = c_at a 0; y = c_at b 0 in
      if x \<noteq> y then (if (of_char x :: nat) < of_char y then - 1 else 1)
      else if x = CHR 0x00 then 0
      else strncmp (tl a) (tl b) n)"

section \<open>The file index (write.c, reading side)\<close>

subsection \<open>\<open>is_multi_header\<close>\<close>

text \<open>The loop \<open>while (i != 0 && name[i - 1] != '/') --i;\<close> started at \<open>i\<close>.\<close>

fun last_slash :: "string \<Rightarrow> nat \<Rightarrow> nat" where
  "last_slash name 0 = 0"
| "last_slash name (Suc j) =
     (if c_at name j \<noteq> CHR ''/'' then last_slash name j else Suc j)"

definition is_multi_header :: "string \<Rightarrow> bool" where
  "is_multi_header name =
     (let i = last_slash name (strlen name) in
      strncmp (drop i name) ''._'' 2 = 0)"

text \<open>The claim's words: the final path component is the suffix after the last
  \<open>'/'\<close>, or the whole name when there is none.\<close>

definition final_component :: "string \<Rightarrow> string" where
  "final_component name = rev (takeWhile (\<lambda>c. c \<noteq> CHR ''/'') (rev name))"

definition begins_with :: "string \<Rightarrow> string \<Rightarrow> bool" where
  "begins_with p s = (take (length p) s = p)"

subsection \<open>\<open>add_file\<close>\<close>

text \<open>
  \<open>file_index_t\<close> is a singly linked chain; the chain reachable from \<open>gFileIndex\<close> is
  the list of its nodes in order, and \<open>gLastFile\<close> is the position in that list of the
  node it points to (\<open>None\<close> for \<open>NULL\<close>). The assignment \<open>gLastFile->next = f\<close> makes
  \<open>f\<close> the successor of that node, which cuts off whatever followed it.
\<close>

record file_index_t =
  name :: "string option"
  offset :: off_t

record findex =
  gFileIndex :: "file_index_t list"
  gLastFile :: "nat option"
  gMultiHeader :: bool
  gMultiHeaderStart :: off_t

definition findex_init :: findex where
  "findex_init = \<lparr>gFileIndex = [], gLastFile = None, gMultiHeader = False,
     gMultiHeaderStart = 0\<rparr>"

definition add_file ::
  "off_t \<Rightarrow> string option \<Rightarrow> 'a findex_scheme \<Rightarrow> 'a findex_scheme" where
  "add_file off nm s =
     (if nm \<noteq> None \<and> is_multi_header (the nm) then
        s\<lparr>gMultiHeaderStart := (if \<not> gMultiHeader s then off else gMultiHeaderStart s),
          gMultiHeader := True\<rparr>
      else
        let f = \<lparr>name = nm,
                 offset = (if gMultiHeader s then gMultiHeaderStart s else off)\<rparr>
        in (case gLastFile s of
              Some i \<Rightarrow> s\<lparr>gMultiHeader := False,
                           gFileIndex := take (Suc i) (gFileIndex s) @ [f],
                           gLastFile := Some (Suc i)\<rparr>
            | None \<Rightarrow> s\<lparr>gMultiHeader := False,
                         gFileIndex := [f],
                         gLastFile := Some 0\<rparr>))"

text \<open>A sequence of registration calls, in order.\<close>

fun add_files ::
  "(off_t \<times> string option) list \<Rightarrow> 'a findex_scheme \<Rightarrow> 'a findex_scheme" where
  "add_files [] s = s"
| "add_files ((off, nm) # cs) s = add_files cs (add_file off nm s)"

definition is_fragment :: "off_t \<times> string option \<Rightarrow> bool" where
  "is_fragment c = (case snd c of None \<Rightarrow> False | Some n \<Rightarrow> is_multi_header n)"

definition index_of :: "(off_t \<times> string option) list \<Rightarrow> file_index_t list" where
  "index_of cs = gFileIndex (add_files cs findex_init)"

text \<open>The collapse rule in the specification's words: a run of fragments is buffered,
  only the offset of its first fragment is remembered (\<open>p\<close>), and the next
  non-fragment name consumes the remembered offset.\<close>

fun collapse :: "off_t option \<Rightarrow> (off_t \<times> string option) list \<Rightarrow> file_index_t list" where
  "collapse p [] = []"
| "collapse p (c # cs) =
     (let start = (case p of None \<Rightarrow> fst c | Some q \<Rightarrow> q) in
      if is_fragment c then collapse (Some start) cs
      else \<lparr>name = snd c, offset = start\<rparr> # collapse None cs)"

text \<open>\<open>gLastFile\<close> points to the last node of the chain, or both are \<open>NULL\<close>.\<close>

definition chain_ok :: "'a findex_scheme \<Rightarrow> bool" where
  "chain_ok s = (case gLastFile s of None \<Rightarrow> gFileIndex s = []
                 | Some i \<Rightarrow> Suc i = length (gFileIndex s))"

definition pending :: "'a findex_scheme \<Rightarrow> off_t option" where
  "pending s = (if gMultiHeader s then Some (gMultiHeaderStart s) else None)"

section \<open>Blocks, queues and files\<close>

text \<open>\<open>size_t\<close> is taken to be 64 bits wide. Sizes are natural numbers; the one
  subtraction of the reader and of the file-index writer that could wrap is written
  with its wrap-around. Sequence numbers and counts cannot reach \<open>2 ^ 64\<close> before
  \<open>gTotalRead\<close> overflows, and are plain natural numbers.\<close>

definition size_sub :: "nat \<Rightarrow> nat \<Rightarrow> nat" where
  "size_sub a b = (if b \<le> a then a - b else a + 2 ^ 64 - b)"

text \<open>\<open>lzma_vli\<close> values are natural numbers; \<open>LZMA_VLI_UNKNOWN\<close> is \<open>UINT64_MAX\<close>.\<close>

definition LZMA_VLI_UNKNOWN :: nat where
  "LZMA_VLI_UNKNOWN = 2 ^ 64 - 1"

record lzma_block =
  version :: nat
  header_size :: nat
  check :: nat
  compressed_size :: nat
  uncompressed_size :: nat

text \<open>\<open>io_block_t\<close>; the \<open>next\<close> pointer is the list structure of the writer's
  pending list. \<open>input_buf\<close> and \<open>output_buf\<close> are the allocated buffers \<open>input\<close>
  and \<open>output\<close>, whose lengths are their capacities.\<close>

record io_block_t =
  seq :: nat
  block :: lzma_block
  input_buf :: "byte list"
  output_buf :: "byte list"
  insize :: nat
  outsize :: nat

datatype msg = MSG_BLOCK io_block_t | MSG_STOP

text \<open>Modelled from the spec: \<open>queue_t\<close>, \<open>queue_push\<close> and \<open>queue_pop\<close> are declared
  in pixz.h and defined outside the files at hand. A queue is a strictly FIFO
  sequence of tagged messages; a pop on an empty queue blocks the caller.\<close>

type_synonym queue_t = "msg list"

definition queue_push :: "queue_t \<Rightarrow> msg \<Rightarrow> queue_t" where
  "queue_push q m = q @ [m]"

definition queue_pop :: "queue_t \<Rightarrow> (msg \<times> queue_t) option" where
  "queue_pop q = (case q of [] \<Rightarrow> None | m # r \<Rightarrow> Some (m, r))"

text \<open>The input stream: the bytes not yet read, and whether the device fails at the
  next read (which sets the error indicator that \<open>ferror\<close> tests).\<close>

record in_file =
  f_rest :: "byte list"
  f_bad :: bool

definition fread :: "nat \<Rightarrow> in_file \<Rightarrow> byte list \<times> in_file" where
  "fread n f = (if f_bad f then ([], f)
                else (take n (f_rest f), f\<lparr>f_rest := drop n (f_rest f)\<rparr>))"

definition ferror :: "in_file \<Rightarrow> bool" where
  "ferror f = f_bad f"

text \<open>The output stream: the bytes written so far, and how many more bytes the device
  accepts (\<open>None\<close>: no limit). \<open>fwrite (buf, size, 1, f)\<close> returns 1 when the one item
  of \<open>size\<close> bytes was written, and 0 when \<open>size\<close> is 0 or the device refuses.\<close>

record out_file =
  o_data :: "byte list"
  o_room :: "nat option"

definition fwrite :: "byte list \<Rightarrow> nat \<Rightarrow> out_file \<Rightarrow> nat \<times> out_file" where
  "fwrite buf sz f =
     (if sz = 0 then (0, f)
      else case o_room f of
             None \<Rightarrow> (1, f\<lparr>o_data := o_data f @ take sz buf\<rparr>)
           | Some r \<Rightarrow> if sz \<le> r
                       then (1, f\<lparr>o_data := o_data f @ take sz buf, o_room := Some (r - sz)\<rparr>)
                       else (0, f))"

text \<open>A copy of \<open>data\<close> into a buffer at position \<open>pos\<close>; a copy that passes the end of
  the buffer is undefined behaviour, reported as \<open>None\<close>.\<close>

definition buf_write :: "byte list \<Rightarrow> nat \<Rightarrow> byte list \<Rightarrow> byte list option" where
  "buf_write buf pos data =
     (if pos + length data \<le> length buf
      then Some (take pos buf @ data @ drop (pos + length data) buf)
      else None)"

section \<open>The codec interface\<close>

text \<open>liblzma is outside the repository; what the program calls of it is a parameter
  of the model. A streaming encoder is a state of type \<open>'e\<close>; one call of \<open>lzma_code\<close>
  is given the action, the \<open>avail_in\<close> bytes at \<open>next_in\<close> and \<open>avail_out\<close>, and
  answers with the return code, the number of input bytes it consumed, the output
  bytes it produced and its next state.\<close>

datatype lzma_ret = LZMA_OK | LZMA_STREAM_END | LZMA_ERROR
datatype lzma_action = LZMA_RUN | LZMA_FINISH

record 'e lzma =
  lzma_lzma_preset :: "nat option"
  lzma_block_buffer_bound :: "nat \<Rightarrow> nat"
  lzma_block_header_size :: "lzma_block \<Rightarrow> nat option"
  lzma_block_header_encode :: "lzma_block \<Rightarrow> byte list option"
  lzma_block_unpadded_size :: "lzma_block \<Rightarrow> nat"
  lzma_block_buffer_encode :: "lzma_block \<Rightarrow> byte list \<Rightarrow> nat \<Rightarrow> (lzma_block \<times> byte list) option"
  lzma_index_append_ok :: "(nat \<times> nat) list \<Rightarrow> nat \<Rightarrow> nat \<Rightarrow> bool"
  lzma_block_encoder :: "lzma_block \<Rightarrow> 'e option"
  lzma_code :: "'e \<Rightarrow> lzma_action \<Rightarrow> byte list \<Rightarrow> nat \<Rightarrow> lzma_ret \<times> nat \<times> byte list \<times> 'e"
  coder_block :: "'e \<Rightarrow> lzma_block"

text \<open>\<open>lzma_stream\<close>: the encoder behind it (\<open>None\<close> before \<open>lzma_block_encoder\<close> and
  after \<open>lzma_end\<close>), the \<open>avail_in\<close> bytes at \<open>next_in\<close>, and the bytes the encoder has
  consumed since it was set up.\<close>

record 'e lzma_stream =
  coder :: "'e option"
  next_in :: "byte list"
  consumed :: "byte list"

text \<open>The stream-level index lists \<open>(unpadded_size, uncompressed_size)\<close> per block.\<close>

type_synonym lzma_index = "(nat \<times> nat) list"

definition lzma_index_append ::
  "'e lzma \<Rightarrow> lzma_index \<Rightarrow> nat \<Rightarrow> nat \<Rightarrow> lzma_index option" where
  "lzma_index_append L i u c =
     (if lzma_index_append_ok L i u c then Some (i @ [(u, c)]) else None)"

section \<open>Globals\<close>

text \<open>The globals of write.c, with \<open>gInFile\<close>, \<open>gIndex\<close>, \<open>gStream\<close>, \<open>gFileIndex\<close> and
  \<open>gLastFile\<close> of pixz.h. \<open>gReadQ\<close> is the free queue.\<close>

record 'e pixz = findex +
  gInFile :: in_file
  gOutFile :: out_file
  gReadQ :: queue_t
  gEncodeQ :: queue_t
  gWriteQ :: queue_t
  gBlockInSize :: nat
  gBlockOutSize :: nat
  gNumEncodeThreads :: nat
  gTotalRead :: off_t
  gBlockNum :: nat
  gReadBlock :: "io_block_t option"
  gIndex :: lzma_index
  gStream :: "'e lzma_stream"
  gFileIndexBuf :: "byte list"
  gFileIndexBufPos :: nat

section \<open>The reader (write.c, \<open>read_thread\<close>)\<close>

subsection \<open>\<open>tar_read\<close>\<close>

text \<open>The first statement of \<open>tar_read\<close>: when there is no current block, one is
  popped from the free queue, its \<open>insize\<close> reset and its \<open>seq\<close> taken from
  \<open>gBlockNum\<close>. The message type is not looked at; a \<open>MSG_STOP\<close> carries no block.\<close>

definition acquire_block ::
  "('e, 'a) pixz_scheme \<Rightarrow> error + (io_block_t \<times> ('e, 'a) pixz_scheme)" where
  "acquire_block s =
     (case gReadBlock s of
        Some b \<Rightarrow> Inr (b, s)
      | None \<Rightarrow>
         (case queue_pop (gReadQ s) of
            None \<Rightarrow> Inl WouldBlock
          | Some (MSG_STOP, q) \<Rightarrow> Inl Crash
          | Some (MSG_BLOCK b, q) \<Rightarrow>
              let b' = b\<lparr>insize := 0, seq := gBlockNum s\<rparr>
              in Inr (b', s\<lparr>gReadQ := q, gReadBlock := Some b',
                            gBlockNum := gBlockNum s + 1\<rparr>)))"

text \<open>\<open>tar_read\<close> returns \<open>rd\<close>; \<open>*bufp\<close> is set to the place in the block where the
  \<open>rd\<close> bytes were stored.\<close>

definition tar_read ::
  "nat \<Rightarrow> ('e, 'a) pixz_scheme \<Rightarrow> error + (nat \<times> ('e, 'a) pixz_scheme)" where
  "tar_read CHUNKSIZE s =
     (case acquire_block s of
        Inl e \<Rightarrow> Inl e
      | Inr (b, s1) \<Rightarrow>
          let space0 = size_sub (gBlockInSize s1) (insize b);
              space = (if space0 > CHUNKSIZE then CHUNKSIZE else space0);
              (data, f) = fread space (gInFile s1);
              rd = length data
          in (case buf_write (input_buf b) (insize b) data of
                None \<Rightarrow> Inl Crash
              | Some buf \<Rightarrow>
                  if ferror f then Inl (Die ''Error reading input file'')
                  else
                    let b' = b\<lparr>input_buf := buf, insize := insize b + rd\<rparr>;
                        s2 = s1\<lparr>gInFile := f, gTotalRead := gTotalRead s1 + of_nat rd\<rparr>
                    in if insize b' = gBlockInSize s2
                       then Inr (rd, s2\<lparr>gEncodeQ := queue_push (gEncodeQ s2) (MSG_BLOCK b'),
                                       gReadBlock := None\<rparr>)
                       else Inr (rd, s2\<lparr>gReadBlock := Some b'\<rparr>)))"

subsection \<open>\<open>read_thread\<close>\<close>

text \<open>libarchive is outside the repository. What it does during \<open>archive_read_open\<close>
  and the calls of \<open>archive_read_next_header\<close> is a script: it pulls bytes through
  \<open>tar_read\<close> (\<open>Pull\<close>), returns a header with \<open>ARCHIVE_OK\<close> or \<open>ARCHIVE_WARN\<close>, its
  position and what \<open>archive_entry_pathname\<close> gives for it, a string or \<open>NULL\<close>
  (\<open>Header\<close>), or returns an error (\<open>Failure\<close>); the end of the script is
  \<open>ARCHIVE_EOF\<close>. The pathname is passed on to \<open>add_file\<close> as it is.\<close>

datatype tar_event = Pull | Header off_t "string option" | Failure

fun read_headers ::
  "nat \<Rightarrow> tar_event list \<Rightarrow> ('e, 'a) pixz_scheme \<Rightarrow> error + ('e, 'a) pixz_scheme" where
  "read_headers CHUNKSIZE [] s = Inr s"
| "read_headers CHUNKSIZE (Pull # es) s =
     (case tar_read CHUNKSIZE s of
        Inl e \<Rightarrow> Inl e
      | Inr (rd, s') \<Rightarrow> read_headers CHUNKSIZE es s')"
| "read_headers CHUNKSIZE (Header pos nm # es) s =
     read_headers CHUNKSIZE es (add_file pos nm s)"
| "read_headers CHUNKSIZE (Failure # es) s = Inl (Die ''Error reading archive entry'')"

text \<open>``write last block, if necessary''.\<close>

definition flush_last :: "('e, 'a) pixz_scheme \<Rightarrow> ('e, 'a) pixz_scheme" where
  "flush_last s =
     (case gReadBlock s of
        None \<Rightarrow> s
      | Some b \<Rightarrow>
          (if insize b \<noteq> 0
           then s\<lparr>gEncodeQ := queue_push (gEncodeQ s) (MSG_BLOCK b), gReadBlock := None\<rparr>
           else s\<lparr>gReadQ := queue_push (gReadQ s) (MSG_BLOCK b), gReadBlock := None\<rparr>))"

text \<open>One \<open>MSG_STOP\<close> per encoder thread.\<close>

fun stop_encoders :: "nat \<Rightarrow> queue_t \<Rightarrow> queue_t" where
  "stop_encoders 0 q = q"
| "stop_encoders (Suc n) q = stop_encoders n (queue_push q MSG_STOP)"

text \<open>\<open>joined\<close> tells whether every \<open>pthread_join\<close> of an encoder thread succeeds. In
  this model of the reader alone, \<open>gEncodeQ\<close> and \<open>gWriteQ\<close> collect what the reader
  posts, in order, and \<open>gReadQ\<close> holds the blocks it will be given.\<close>

definition read_thread ::
  "nat \<Rightarrow> tar_event list \<Rightarrow> bool \<Rightarrow> ('e, 'a) pixz_scheme \<Rightarrow> error + ('e, 'a) pixz_scheme" where
  "read_thread CHUNKSIZE script joined s =
     (case read_headers CHUNKSIZE script s of
        Inl e \<Rightarrow> Inl e
      | Inr s1 \<Rightarrow>
          let s2 = add_file (gTotalRead s1) None s1;
              s3 = flush_last s2;
              s4 = s3\<lparr>gEncodeQ := stop_encoders (gNumEncodeThreads s3) (gEncodeQ s3)\<rparr>
          in if \<not> joined then Inl (Die ''Error joining encode thread'')
             else Inr (s4\<lparr>gWriteQ := queue_push (gWriteQ s4) MSG_STOP\<rparr>))"

section \<open>The writer (write.c, \<open>main\<close> and \<open>write_blocks\<close>)\<close>

text \<open>The \<open>for\<close> loop of \<open>write_blocks\<close>: the first block of the pending list whose
  \<open>seq\<close> is the wanted one, and the list with that block unlinked.\<close>

fun find_seq :: "io_block_t list \<Rightarrow> nat \<Rightarrow> (io_block_t \<times> io_block_t list) option" where
  "find_seq [] n = None"
| "find_seq (ib # ibs) n =
     (if seq ib = n then Some (ib, ibs)
      else (case find_seq ibs n of
              None \<Rightarrow> None
            | Some (found, rest) \<Rightarrow> Some (found, ib # rest)))"

text \<open>\<open>write_blocks\<close>: as long as the next block is in the pending list, it is written,
  registered with the index, unlinked and returned to the free queue, and \<open>*seq\<close>
  is incremented. The result is the pending list, \<open>*seq\<close> and the globals.\<close>

function write_blocks ::
  "'e lzma \<Rightarrow> io_block_t list \<Rightarrow> nat \<Rightarrow> ('e, 'a) pixz_scheme \<Rightarrow>
   error + (io_block_t list \<times> nat \<times> ('e, 'a) pixz_scheme)" where
  "write_blocks L ibs sq s =
     (case find_seq ibs sq of
        None \<Rightarrow> Inr (ibs, sq, s)
      | Some (ib, rest) \<Rightarrow>
          if length (output_buf ib) < outsize ib then Inl Crash
          \<comment> \<open>\<open>fwrite\<close> would read past the end of \<open>ib->output\<close>\<close>
          else
          (case fwrite (output_buf ib) (outsize ib) (gOutFile s) of
             (r, f) \<Rightarrow>
               if r \<noteq> 1 then Inl (Die ''Error writing block data'')
               else (case lzma_index_append L (gIndex s)
                            (lzma_block_unpadded_size L (block ib))
                            (uncompressed_size (block ib)) of
                       None \<Rightarrow> Inl (Die ''Error adding to index'')
                     | Some i \<Rightarrow>
                         write_blocks L rest (sq + 1)
                           (s\<lparr>gOutFile := f, gIndex := i,
                              gReadQ := queue_push (gReadQ s) (MSG_BLOCK ib)\<rparr>))))"
  by pat_completeness auto
termination
  apply (relation "measure (\<lambda>(L, ibs, sq, s). length ibs)")
   apply simp
  subgoal premises found for L ibs sq s x2 ib rest
  proof -
    have shorter: "find_seq xs n = Some (b, ys) \<Longrightarrow> length ys < length xs" for xs n b ys
      by (induction xs arbitrary: b ys) (auto split: if_splits option.splits)
    from found(1,2) have "find_seq ibs sq = Some (ib, rest)"
      by simp
    then have "length rest < length ibs"
      by (rule shorter)
    then show ?thesis
      by simp
  qed
  done

text \<open>The loop of \<open>main\<close> that pops \<open>gWriteQ\<close>. The queue holds the messages in the
  order in which they arrive; running out of messages before \<open>MSG_STOP\<close> is a wait.\<close>

function writer_loop ::
  "'e lzma \<Rightarrow> io_block_t list \<Rightarrow> nat \<Rightarrow> ('e, 'a) pixz_scheme \<Rightarrow>
   error + (io_block_t list \<times> nat \<times> ('e, 'a) pixz_scheme)" where
  "writer_loop L ibs sq s =
     (case queue_pop (gWriteQ s) of
        None \<Rightarrow> Inl WouldBlock
      | Some (MSG_STOP, q) \<Rightarrow> Inr (ibs, sq, s\<lparr>gWriteQ := q\<rparr>)
      | Some (MSG_BLOCK ib, q) \<Rightarrow>
          (case write_blocks L (ib # ibs) sq (s\<lparr>gWriteQ := q\<rparr>) of
             Inl e \<Rightarrow> Inl e
           | Inr (ibs', sq', s') \<Rightarrow> writer_loop L ibs' sq' s'))"
  by pat_completeness auto
termination
  apply (relation "measure (\<lambda>(L, ibs, sq, s). length (gWriteQ s))")
   apply simp
  subgoal premises run for L ibs sq s x2 m q ib x2a ibs' y sq' s'
  proof -
  have keeps: "write_blocks K xs n t = Inr (xs', n', t') \<Longrightarrow> gWriteQ t' = gWriteQ t"
    for K xs n t xs' n' t'
  proof (induction K xs n t rule: write_blocks.induct)
    case (1 K xs n t)
    show ?case
    proof (cases "find_seq xs n")
      case None
      with "1.prems" show ?thesis by simp
    next
      case (Some p)
      obtain b ys where p: "p = (b, ys)" by (cases p)
      obtain r g where fw: "fwrite (output_buf b) (outsize b) (gOutFile t) = (r, g)"
        by (cases "fwrite (output_buf b) (outsize b) (gOutFile t)")
      from "1.prems" Some p have fits: "\<not> length (output_buf b) < outsize b"
        by (auto split: if_splits)
      from "1.prems" Some p fw have r: "r = 1"
        by (auto split: if_splits)
      from "1.prems" Some p fw r fits obtain j where
        j: "lzma_index_append K (gIndex t) (lzma_block_unpadded_size K (block b))
              (uncompressed_size (block b)) = Some j"
        by (auto split: option.splits)
      from "1.prems" Some p fw r j fits
      have "write_blocks K ys (n + 1)
              (t\<lparr>gOutFile := g, gIndex := j,
                 gReadQ := queue_push (gReadQ t) (MSG_BLOCK b)\<rparr>) = Inr (xs', n', t')"
        by simp
      from "1.IH"[OF Some p[symmetric] fits fw[symmetric] _ j this] r
      show ?thesis by simp
    qed
  qed
  from run have "write_blocks L (ib # ibs) sq (s\<lparr>gWriteQ := q\<rparr>) = Inr (ibs', sq', s')"
    by simp
  then have "gWriteQ s' = gWriteQ (s\<lparr>gWriteQ := q\<rparr>)"
    by (rule keeps)
  then have "gWriteQ s' = q"
    by simp
  moreover from run have "length q < length (gWriteQ s)"
    by (auto simp: queue_pop_def split: list.splits)
  ultimately show ?thesis
    by simp
  qed
  done

section \<open>The file-index block (write.c, \<open>write_file_index\<close>)\<close>

text \<open>Modelled from the spec: \<open>xle64enc\<close> is declared in pixz.h and missing from the
  files at hand. It stores a 64-bit value as 8 bytes, least significant byte first.\<close>

definition xle64enc :: "64 word \<Rightarrow> byte list" where
  "xle64enc n = map (\<lambda>k. ucast (drop_bit (8 * k) n)) [0..<8]"

text \<open>The bytes of a C string with its terminating NUL, as \<open>uint8_t\<close>.\<close>

definition c_bytes :: "string \<Rightarrow> byte list" where
  "c_bytes s = map of_char s @ [0]"

subsection \<open>\<open>write_file_index_buf\<close>\<close>

text \<open>The \<open>while\<close> loop of \<open>write_file_index_buf\<close>. Whether it ends depends on the
  encoder, so it is given fuel, and \<open>None\<close> is the loop that does not return within
  it. \<open>err\<close> is the last return code. The encoder cannot consume more than
  \<open>avail_in\<close> bytes nor produce more than \<open>avail_out\<close>.\<close>

fun encode_loop ::
  "'e lzma \<Rightarrow> nat \<Rightarrow> lzma_action \<Rightarrow> nat \<Rightarrow> lzma_ret \<Rightarrow> ('e, 'a) pixz_scheme \<Rightarrow>
   (error + ('e, 'a) pixz_scheme) option" where
  "encode_loop L CHUNKSIZE action 0 err s =
     (if err \<noteq> LZMA_STREAM_END \<and> (action = LZMA_FINISH \<or> next_in (gStream s) \<noteq> [])
      then None
      else Some (Inr s))"
| "encode_loop L CHUNKSIZE action (Suc fuel) err s =
     (if err \<noteq> LZMA_STREAM_END \<and> (action = LZMA_FINISH \<or> next_in (gStream s) \<noteq> [])
      then
        (case coder (gStream s) of
           None \<Rightarrow> Some (Inl (Die ''Error encoding file index''))
         | Some e \<Rightarrow>
             (case lzma_code L e action (next_in (gStream s)) CHUNKSIZE of
                (err', n, out, e') \<Rightarrow>
                  let n' = min n (length (next_in (gStream s)));
                      obuf = take CHUNKSIZE out;
                      s1 = s\<lparr>gStream := (gStream s)\<lparr>coder := Some e',
                              next_in := drop n' (next_in (gStream s)),
                              consumed := consumed (gStream s) @
                                          take n' (next_in (gStream s))\<rparr>\<rparr>
                  in if err' \<noteq> LZMA_OK \<and> err' \<noteq> LZMA_STREAM_END
                     then Some (Inl (Die ''Error encoding file index''))
                     else if obuf \<noteq> []
                     then (case fwrite obuf (length obuf) (gOutFile s1) of
                             (r, f) \<Rightarrow>
                               if r \<noteq> 1 then Some (Inl (Die ''Error writing file index''))
                               else encode_loop L CHUNKSIZE action fuel err'
                                      (s1\<lparr>gOutFile := f\<rparr>))
                     else encode_loop L CHUNKSIZE action fuel err' s1))
      else Some (Inr s))"

definition write_file_index_buf ::
  "'e lzma \<Rightarrow> nat \<Rightarrow> nat \<Rightarrow> lzma_action \<Rightarrow> ('e, 'a) pixz_scheme \<Rightarrow>
   (error + ('e, 'a) pixz_scheme) option" where
  "write_file_index_buf L CHUNKSIZE fuel action s =
     (let s1 = s\<lparr>gStream := (gStream s)
                    \<lparr>next_in := take (gFileIndexBufPos s) (gFileIndexBuf s)\<rparr>\<rparr>
      in case encode_loop L CHUNKSIZE action fuel LZMA_OK s1 of
           None \<Rightarrow> None
         | Some (Inl e) \<Rightarrow> Some (Inl e)
         | Some (Inr s2) \<Rightarrow> Some (Inr (s2\<lparr>gFileIndexBufPos := 0\<rparr>)))"

subsection \<open>\<open>write_file_index_bytes\<close>\<close>

text \<open>The array \<open>buf\<close> of \<open>size\<close> bytes is the list \<open>data\<close>. \<open>gFileIndexBuf\<close> is an
  array of \<open>CHUNKSIZE\<close> bytes, so \<open>CHUNKSIZE\<close> is not 0 in a C program; with
  \<open>CHUNKSIZE = 0\<close> no iteration would advance \<open>bufpos\<close>.\<close>

function write_file_index_bytes_from ::
  "'e lzma \<Rightarrow> nat \<Rightarrow> nat \<Rightarrow> byte list \<Rightarrow> nat \<Rightarrow> ('e, 'a) pixz_scheme \<Rightarrow>
   (error + ('e, 'a) pixz_scheme) option" where
  "write_file_index_bytes_from L CHUNKSIZE fuel data bufpos s =
     (if bufpos < length data then
        (if CHUNKSIZE = 0 then None
         else
           let len0 = length data - bufpos;
               space = size_sub CHUNKSIZE (gFileIndexBufPos s);
               len = (if len0 > space then space else len0)
           in if \<not> gFileIndexBufPos s + len \<le> CHUNKSIZE then Some (Inl Crash)
              \<comment> \<open>a \<open>memcpy\<close> past the \<open>CHUNKSIZE\<close> bytes of the array\<close>
              else
                (case buf_write (gFileIndexBuf s) (gFileIndexBufPos s)
                        (take len (drop bufpos data)) of
                   None \<Rightarrow> Some (Inl Crash)
                 | Some buf \<Rightarrow>
                     let s1 = s\<lparr>gFileIndexBuf := buf,
                                gFileIndexBufPos := gFileIndexBufPos s + len\<rparr>
                     in if gFileIndexBufPos s1 = CHUNKSIZE
                        then (case write_file_index_buf L CHUNKSIZE fuel LZMA_RUN s1 of
                                None \<Rightarrow> None
                              | Some (Inl e) \<Rightarrow> Some (Inl e)
                              | Some (Inr s2) \<Rightarrow>
                                  write_file_index_bytes_from L CHUNKSIZE fuel data
                                    (bufpos + len) (s2\<lparr>gFileIndexBufPos := 0\<rparr>))
                        else write_file_index_bytes_from L CHUNKSIZE fuel data
                               (bufpos + len) s1))
      else Some (Inr s))"
  by pat_completeness auto
termination
  apply (relation "measures [\<lambda>(L, C, fuel, data, bufpos, s). length data - bufpos,
                             \<lambda>(L, C, fuel, data, bufpos, s).
                                if gFileIndexBufPos s = C then 1 else 0]")
    apply simp
   apply (auto simp: size_sub_def split: if_splits)
  done

definition write_file_index_bytes ::
  "'e lzma \<Rightarrow> nat \<Rightarrow> nat \<Rightarrow> byte list \<Rightarrow> ('e, 'a) pixz_scheme \<Rightarrow>
   (error + ('e, 'a) pixz_scheme) option" where
  "write_file_index_bytes L CHUNKSIZE fuel data s =
     write_file_index_bytes_from L CHUNKSIZE fuel data 0 s"

subsection \<open>\<open>write_file_index\<close>\<close>

text \<open>\<open>block_init\<close>; \<open>CHECK\<close> is a macro of pixz.h and a parameter here.\<close>

definition block_init :: "'e lzma \<Rightarrow> nat \<Rightarrow> error + lzma_block" where
  "block_init L CHECK =
     (let b = \<lparr>version = 0, header_size = 0, check = CHECK,
                compressed_size = LZMA_VLI_UNKNOWN,
                uncompressed_size = LZMA_VLI_UNKNOWN\<rparr>
      in case lzma_block_header_size L b of
           None \<Rightarrow> Inl (Die ''Error getting block header size'')
         | Some h \<Rightarrow> Inr (b\<lparr>header_size := h\<rparr>))"

text \<open>The \<open>for\<close> loop over the chain: the name with its NUL (the empty string for the
  \<open>NULL\<close> name), then the offset.\<close>

fun write_entries ::
  "'e lzma \<Rightarrow> nat \<Rightarrow> nat \<Rightarrow> file_index_t list \<Rightarrow> ('e, 'a) pixz_scheme \<Rightarrow>
   (error + ('e, 'a) pixz_scheme) option" where
  "write_entries L CHUNKSIZE fuel [] s = Some (Inr s)"
| "write_entries L CHUNKSIZE fuel (f # fs) s =
     (let nm = (case name f of Some n \<Rightarrow> n | None \<Rightarrow> []);
          len = strlen nm
      in case write_file_index_bytes L CHUNKSIZE fuel (take (len + 1) (c_bytes nm)) s of
           None \<Rightarrow> None
         | Some (Inl e) \<Rightarrow> Some (Inl e)
         | Some (Inr s1) \<Rightarrow>
             (case write_file_index_bytes L CHUNKSIZE fuel (xle64enc (offset f)) s1 of
                None \<Rightarrow> None
              | Some (Inl e) \<Rightarrow> Some (Inl e)
              | Some (Inr s2) \<Rightarrow> write_entries L CHUNKSIZE fuel fs s2))"

text \<open>\<open>lzma_block_encoder\<close> keeps a pointer to \<open>block\<close> and fills in its sizes when the
  block is finished: \<open>coder_block\<close> reads the descriptor back.\<close>

definition write_file_index ::
  "'e lzma \<Rightarrow> nat \<Rightarrow> nat \<Rightarrow> nat \<Rightarrow> ('e, 'a) pixz_scheme \<Rightarrow>
   (error + ('e, 'a) pixz_scheme) option" where
  "write_file_index L CHUNKSIZE CHECK fuel s =
     (case block_init L CHECK of
        Inl e \<Rightarrow> Some (Inl e)
      | Inr blk \<Rightarrow>
     (case lzma_block_header_encode L blk of
        None \<Rightarrow> Some (Inl (Die ''Error encoding file index header''))
      | Some hdrbuf \<Rightarrow>
     (case fwrite hdrbuf (header_size blk) (gOutFile s) of
        (r, f) \<Rightarrow>
     if r \<noteq> 1 then Some (Inl (Die ''Error writing file index header''))
     else
     (case lzma_block_encoder L blk of
        None \<Rightarrow> Some (Inl (Die ''Error creating file index encoder''))
      | Some e \<Rightarrow>
     (let s1 = s\<lparr>gOutFile := f,
                gStream := (gStream s)\<lparr>coder := Some e, consumed := []\<rparr>\<rparr>
      in case write_entries L CHUNKSIZE fuel (gFileIndex s1) s1 of
           None \<Rightarrow> None
         | Some (Inl e) \<Rightarrow> Some (Inl e)
         | Some (Inr s2) \<Rightarrow>
     (case write_file_index_buf L CHUNKSIZE fuel LZMA_FINISH s2 of
        None \<Rightarrow> None
      | Some (Inl e) \<Rightarrow> Some (Inl e)
      | Some (Inr s3) \<Rightarrow>
     (let blk' = (case coder (gStream s3) of Some e' \<Rightarrow> coder_block L e' | None \<Rightarrow> blk)
      in case lzma_index_append L (gIndex s3) (lzma_block_unpadded_size L blk')
                (uncompressed_size blk') of
           None \<Rightarrow> Some (Inl (Die ''Error adding file-index to index''))
         | Some i \<Rightarrow>
             Some (Inr (s3\<lparr>gIndex := i,
                           gStream := (gStream s3)\<lparr>coder := None\<rparr>\<rparr>)))))))))"

text \<open>The file-index payload in the specification's words: per entry, the name bytes,
  one \<open>0x00\<close> byte, and the offset as 8 bytes in little-endian order; the entry with
  the \<open>NULL\<close> name has no name bytes.\<close>

definition le64 :: "64 word \<Rightarrow> byte list" where
  "le64 n = [ucast n, ucast (drop_bit 8 n), ucast (drop_bit 16 n), ucast (drop_bit 24 n),
             ucast (drop_bit 32 n), ucast (drop_bit 40 n), ucast (drop_bit 48 n),
             ucast (drop_bit 56 n)]"

definition index_record :: "file_index_t \<Rightarrow> byte list" where
  "index_record f =
     (case name f of None \<Rightarrow> [] | Some n \<Rightarrow> map of_char n) @ [0] @ le64 (offset f)"

definition index_payload :: "file_index_t list \<Rightarrow> byte list" where
  "index_payload fs = concat (map index_record fs)"

text \<open>The two arrays that \<open>write_file_index\<close> hands to \<open>write_file_index_bytes\<close> for an
  entry of the chain.\<close>

definition entry_arrays :: "file_index_t \<Rightarrow> byte list list" where
  "entry_arrays f =
     (let nm = (case name f of Some n \<Rightarrow> n | None \<Rightarrow> [])
      in [take (strlen nm + 1) (c_bytes nm), xle64enc (offset f)])"

section \<open>The encoders (write.c, \<open>encode_thread\<close>)\<close>

text \<open>What \<open>encode_thread\<close> does with one block: \<open>block_init\<close>, then
  \<open>lzma_block_buffer_encode\<close> on the \<open>insize\<close> bytes of \<open>input\<close>, which fills \<open>output\<close>
  with at most \<open>gBlockOutSize\<close> bytes and sets \<open>outsize\<close>. Reading or writing past a
  buffer is undefined behaviour.\<close>

definition encode_block :: "'e lzma \<Rightarrow> nat \<Rightarrow> nat \<Rightarrow> io_block_t \<Rightarrow> error + io_block_t" where
  "encode_block L CHECK bound ib =
     (case block_init L CHECK of
        Inl e \<Rightarrow> Inl e
      | Inr blk \<Rightarrow>
          if length (input_buf ib) < insize ib then Inl Crash
          else
            (case lzma_block_buffer_encode L blk (take (insize ib) (input_buf ib)) bound of
               None \<Rightarrow> Inl (Die ''Error encoding block'')
             | Some (blk', out) \<Rightarrow>
                 let out' = take bound out
                 in (case buf_write (output_buf ib) 0 out' of
                       None \<Rightarrow> Inl Crash
                     | Some buf \<Rightarrow>
                         Inr (ib\<lparr>block := blk', output_buf := buf,
                                 outsize := length out'\<rparr>))))"

text \<open>One encoder thread, given in \<open>gEncodeQ\<close> the messages it pops, in order.\<close>

function encode_thread ::
  "'e lzma \<Rightarrow> nat \<Rightarrow> ('e, 'a) pixz_scheme \<Rightarrow> error + ('e, 'a) pixz_scheme" where
  "encode_thread L CHECK s =
     (case queue_pop (gEncodeQ s) of
        None \<Rightarrow> Inl WouldBlock
      | Some (MSG_STOP, q) \<Rightarrow> Inr (s\<lparr>gEncodeQ := q\<rparr>)
      | Some (MSG_BLOCK ib, q) \<Rightarrow>
          (case encode_block L CHECK (gBlockOutSize s) ib of
             Inl e \<Rightarrow> Inl e
           | Inr ib' \<Rightarrow>
               encode_thread L CHECK
                 (s\<lparr>gEncodeQ := q,
                    gWriteQ := queue_push (gWriteQ s) (MSG_BLOCK ib')\<rparr>)))"
  by pat_completeness auto
termination
  by (relation "measure (\<lambda>(L, CHECK, s). length (gEncodeQ s))")
     (auto simp: queue_pop_def split: list.splits)

section \<open>Startup (write.c, \<open>main\<close>)\<close>

text \<open>The globals at program start: zero, \<open>NULL\<close>, empty queues, and the two files as
  \<open>main\<close> has opened them.\<close>

definition globals_init :: "nat \<Rightarrow> in_file \<Rightarrow> out_file \<Rightarrow> 'e pixz" where
  "globals_init CHUNKSIZE fin fout =
     \<lparr>gFileIndex = [], gLastFile = None, gMultiHeader = False, gMultiHeaderStart = 0,
      gInFile = fin, gOutFile = fout, gReadQ = [], gEncodeQ = [], gWriteQ = [],
      gBlockInSize = 0, gBlockOutSize = 0, gNumEncodeThreads = 0, gTotalRead = 0,
      gBlockNum = 0, gReadBlock = None, gIndex = [],
      gStream = \<lparr>coder = None, next_in = [], consumed = []\<rparr>,
      gFileIndexBuf = replicate CHUNKSIZE 0, gFileIndexBufPos = 0\<rparr>"

text \<open>\<open>malloc\<close>: the contents are indeterminate, and zero here; the source does not
  test the result, and the model lets every allocation succeed.\<close>

definition malloc :: "nat \<Rightarrow> byte list" where
  "malloc n = replicate n 0"

definition new_block :: "('e, 'a) pixz_scheme \<Rightarrow> io_block_t" where
  "new_block s =
     \<lparr>seq = 0,
      block = \<lparr>version = 0, header_size = 0, check = 0, compressed_size = 0,
               uncompressed_size = 0\<rparr>,
      input_buf = malloc (gBlockInSize s), output_buf = malloc (gBlockOutSize s),
      insize = 0, outsize = 0\<rparr>"

text \<open>The bound of the allocation loop is \<open>(int)(gNumEncodeThreads * 2 + 4)\<close>, compared
  with the \<open>size_t\<close> counter: the \<open>size_t\<close> value is cut to a 32-bit \<open>int\<close> and that
  \<open>int\<close> converted back to \<open>size_t\<close>.\<close>

definition size_to_int :: "nat \<Rightarrow> int" where
  "size_to_int x = (let m = x mod 2 ^ 32 in if m < 2 ^ 31 then int m else int m - 2 ^ 32)"

definition int_to_size :: "int \<Rightarrow> nat" where
  "int_to_size z = nat (z mod 2 ^ 64)"

definition block_count :: "nat \<Rightarrow> nat" where
  "block_count n = int_to_size (size_to_int ((n * 2 + 4) mod 2 ^ 64))"

fun fill_free_queue :: "nat \<Rightarrow> ('e, 'a) pixz_scheme \<Rightarrow> ('e, 'a) pixz_scheme" where
  "fill_free_queue 0 s = s"
| "fill_free_queue (Suc k) s =
     fill_free_queue k (s\<lparr>gReadQ := queue_push (gReadQ s) (MSG_BLOCK (new_block s))\<rparr>)"

text \<open>\<open>main\<close> from ``xz options'' to the end of the allocation loop. \<open>dict_size\<close> is a
  \<open>uint32_t\<close>, so its product with \<open>2.0\<close> is exact in \<open>double\<close> and fits \<open>size_t\<close>.
  \<open>n\<close> is what \<open>num_threads\<close> returns.\<close>

definition main_setup ::
  "'e lzma \<Rightarrow> nat \<Rightarrow> nat \<Rightarrow> in_file \<Rightarrow> out_file \<Rightarrow> error + 'e pixz" where
  "main_setup L CHUNKSIZE n fin fout =
     (case lzma_lzma_preset L of
        None \<Rightarrow> Inl (Die ''Error setting lzma options'')
      | Some dict_size \<Rightarrow>
          let s0 = globals_init CHUNKSIZE fin fout;
              s1 = s0\<lparr>gBlockInSize := dict_size * 2\<rparr>;
              s2 = s1\<lparr>gBlockOutSize := lzma_block_buffer_bound L (gBlockInSize s1)\<rparr>;
              s3 = s2\<lparr>gNumEncodeThreads := n\<rparr>
          in Inr (fill_free_queue (block_count (gNumEncodeThreads s3)) s3))"

text \<open>The threads are created after that, the reader first; \<open>spawn\<close> tells which
  \<open>pthread_create\<close> succeeds. The result is the list of threads started and the
  globals they start on.\<close>

datatype thread = ReadThread | EncodeThread nat

definition main_start ::
  "'e lzma \<Rightarrow> nat \<Rightarrow> nat \<Rightarrow> (thread \<Rightarrow> bool) \<Rightarrow> in_file \<Rightarrow> out_file \<Rightarrow>
   error + (thread list \<times> 'e pixz)" where
  "main_start L CHUNKSIZE n spawn fin fout =
     (case main_setup L CHUNKSIZE n fin fout of
        Inl e \<Rightarrow> Inl e
      | Inr s \<Rightarrow>
          if \<not> spawn ReadThread then Inl (Die ''Error creating read thread'')
          else if \<not> list_all spawn (map EncodeThread [0..<gNumEncodeThreads s])
          then Inl (Die ''Error creating encode thread'')
          else Inr (ReadThread # map EncodeThread [0..<gNumEncodeThreads s], s))"

section \<open>Invariants\<close>

text \<open>What the reader relies on: the current block is not full, every block it holds
  or can be given has an input buffer of \<open>gBlockInSize\<close> bytes, and the free queue
  carries blocks only.\<close>

definition full_sized :: "nat \<Rightarrow> msg \<Rightarrow> bool" where
  "full_sized n m = (case m of MSG_BLOCK b \<Rightarrow> length (input_buf b) = n | MSG_STOP \<Rightarrow> False)"

definition reader_inv :: "('e, 'a) pixz_scheme \<Rightarrow> bool" where
  "reader_inv s =
     ((case gReadBlock s of
         None \<Rightarrow> True
       | Some b \<Rightarrow> insize b < gBlockInSize s \<and> length (input_buf b) = gBlockInSize s) \<and>
      list_all (full_sized (gBlockInSize s)) (gReadQ s))"

text \<open>Every block message of a queue carries a block with input in it.\<close>

definition nonempty_block :: "msg \<Rightarrow> bool" where
  "nonempty_block m = (case m of MSG_BLOCK b \<Rightarrow> 0 < insize b | MSG_STOP \<Rightarrow> True)"

definition nonempty_blocks :: "queue_t \<Rightarrow> bool" where
  "nonempty_blocks q = list_all nonempty_block q"

text \<open>The registration calls that a script makes before the end of the archive.\<close>

fun headers :: "tar_event list \<Rightarrow> (off_t \<times> string option) list" where
  "headers [] = []"
| "headers (Header pos nm # es) = (pos, nm) # headers es"
| "headers (e # es) = headers es"

text \<open>The offset remembered after a sequence of calls, starting with \<open>p\<close> remembered.\<close>

fun remembered :: "off_t option \<Rightarrow> (off_t \<times> string option) list \<Rightarrow> off_t option" where
  "remembered p [] = p"
| "remembered p (c # cs) =
     (if is_fragment c then remembered (Some (case p of None \<Rightarrow> fst c | Some q \<Rightarrow> q)) cs
      else remembered None cs)"

text \<open>The fragments at the end of a sequence of calls, and the offset the sentinel
  entry gets: that of the first of them, or else the number of bytes read.\<close>

definition trailing_fragments ::
  "(off_t \<times> string option) list \<Rightarrow> (off_t \<times> string option) list" where
  "trailing_fragments cs = rev (takeWhile is_fragment (rev cs))"

definition sentinel_offset :: "(off_t \<times> string option) list \<Rightarrow> off_t \<Rightarrow> off_t" where
  "sentinel_offset cs nread =
     (case trailing_fragments cs of [] \<Rightarrow> nread | f # fs \<Rightarrow> fst f)"

text \<open>What the writer does with one block: the bytes it appends to the output file and
  the pair it appends to the stream-level index. \<open>blocks_before_stop\<close> lists the
  blocks that arrive on a queue before its first \<open>MSG_STOP\<close>.\<close>

definition payload :: "io_block_t \<Rightarrow> byte list" where
  "payload ib = take (outsize ib) (output_buf ib)"

definition index_pair :: "'e lzma \<Rightarrow> io_block_t \<Rightarrow> nat \<times> nat" where
  "index_pair L ib = (lzma_block_unpadded_size L (block ib), uncompressed_size (block ib))"

fun blocks_before_stop :: "queue_t \<Rightarrow> io_block_t list" where
  "blocks_before_stop [] = []"
| "blocks_before_stop (MSG_STOP # q) = []"
| "blocks_before_stop (MSG_BLOCK ib # q) = ib # blocks_before_stop q"

definition reader_ok :: "('e, 'a) pixz_scheme \<Rightarrow> bool" where
  "reader_ok s = (reader_inv s \<and> 0 < gBlockInSize s \<and> nonempty_blocks (gEncodeQ s))"

section \<open>A small instance\<close>

text \<open>A codec that stores its input, with a dictionary of 4 bytes, and an input of
  10 bytes; \<open>CHUNKSIZE\<close> is 4 in the examples that use them.\<close>

definition store_codec :: "unit lzma" where
  "store_codec =
     \<lparr>lzma_lzma_preset = Some 4,
      lzma_block_buffer_bound = (\<lambda>n. n + 8),
      lzma_block_header_size = (\<lambda>b. Some 12),
      lzma_block_header_encode = (\<lambda>b. Some (replicate 12 0)),
      lzma_block_unpadded_size = (\<lambda>b. header_size b + compressed_size b + 4),
      lzma_block_buffer_encode =
        (\<lambda>b inp bound. Some (b\<lparr>compressed_size := length inp,
                                   uncompressed_size := length inp\<rparr>, take bound inp)),
      lzma_index_append_ok = (\<lambda>i u c. True),
      lzma_block_encoder = (\<lambda>b. Some ()),
      lzma_code =
        (\<lambda>e action inp avail.
           (if action = LZMA_FINISH \<and> length inp \<le> avail then LZMA_STREAM_END else LZMA_OK,
            min (length inp) avail, take avail inp, e)),
      coder_block = (\<lambda>e. \<lparr>version = 0, header_size = 12, check = 1,
                              compressed_size = 0, uncompressed_size = 0\<rparr>)\<rparr>"

definition example_in :: in_file where
  "example_in = \<lparr>f_rest = [1, 2, 3, 4, 5, 6, 7, 8, 9, 10], f_bad = False\<rparr>"

definition example_out :: out_file where
  "example_out = \<lparr>o_data = [], o_room = None\<rparr>"

definition example_block :: io_block_t where
  "example_block =
     \<lparr>seq = 0,
      block = \<lparr>version = 0, header_size = 0, check = 0, compressed_size = 0,
               uncompressed_size = 0\<rparr>,
      input_buf = replicate 8 0, output_buf = replicate 16 0, insize = 0, outsize = 0\<rparr>"

definition example_start :: "unit pixz" where
  "example_start = projr (main_setup store_codec 4 1 example_in example_out)"

text \<open>An archive whose only member is an AppleDouble file, and one with an ordinary
  member after it.\<close>

definition appledouble_run :: "error + unit pixz" where
  "appledouble_run =
     read_thread 4 [Pull, Header 0 (Some ''._a''), Pull, Pull] True example_start"

definition member_run :: "error + unit pixz" where
  "member_run =
     read_thread 4 [Pull, Header 0 (Some ''._a''), Pull, Header 4 (Some ''a''), Pull] True
       example_start"

text \<open>An archive with a header for which the parser has no pathname.\<close>

definition null_pathname_run :: "error + unit pixz" where
  "null_pathname_run =
     read_thread 4 [Pull, Header 0 None, Pull, Header 4 (Some ''a''), Pull] True
       example_start"

text \<open>An input that fills one block exactly: the read after it finds the end of the
  file, and leaves an empty block behind.\<close>

definition full_block_run :: "error + unit pixz" where
  "full_block_run =
     read_thread 4 [Pull, Header 0 (Some ''a''), Pull, Pull] True
       (example_start\<lparr>gInFile := \<lparr>f_rest = [1, 2, 3, 4, 5, 6, 7, 8], f_bad = False\<rparr>\<rparr>)"

text \<open>What a queue holds: \<open>seq\<close> and \<open>insize\<close> of each block, \<open>None\<close> for \<open>MSG_STOP\<close>.\<close>

definition queue_summary :: "queue_t \<Rightarrow> (nat \<times> nat) option list" where
  "queue_summary q =
     map (\<lambda>m. case m of MSG_BLOCK b \<Rightarrow> Some (seq b, insize b) | MSG_STOP \<Rightarrow> None) q"

text \<open>A sequence of \<open>write_file_index_bytes\<close> calls, one per array.\<close>

fun write_arrays ::
  "'e lzma \<Rightarrow> nat \<Rightarrow> nat \<Rightarrow> byte list list \<Rightarrow> ('e, 'a) pixz_scheme \<Rightarrow>
   (error + ('e, 'a) pixz_scheme) option" where
  "write_arrays L CHUNKSIZE fuel [] s = Some (Inr s)"
| "write_arrays L CHUNKSIZE fuel (d # ds) s =
     (case write_file_index_bytes L CHUNKSIZE fuel d s of
        None \<Rightarrow> None
      | Some (Inl e) \<Rightarrow> Some (Inl e)
      | Some (Inr s1) \<Rightarrow> write_arrays L CHUNKSIZE fuel ds s1)"

text \<open>The bytes waiting in \<open>gFileIndexBuf\<close>.\<close>

definition buffered :: "('e, 'a) pixz_scheme \<Rightarrow> byte list" where
  "buffered s = take (gFileIndexBufPos s) (gFileIndexBuf s)"

text \<open>What the program relies on in the encoder: when \<open>lzma_code\<close> answers
  \<open>LZMA_STREAM_END\<close>, it has consumed all the input it was given. An encoder makes
  progress when it never fails, consumes at least one byte of a non-empty input, and
  ends the stream when asked to finish with no input left.\<close>

definition codec_ok :: "'e lzma \<Rightarrow> bool" where
  "codec_ok L =
     (\<forall>e action inp avail.
        fst (lzma_code L e action inp avail) = LZMA_STREAM_END \<longrightarrow>
        length inp \<le> fst (snd (lzma_code L e action inp avail)))"

definition codec_progress :: "'e lzma \<Rightarrow> bool" where
  "codec_progress L =
     (\<forall>e action inp avail. 0 < avail \<longrightarrow>
        fst (lzma_code L e action inp avail) \<noteq> LZMA_ERROR \<and>
        (inp \<noteq> [] \<longrightarrow> 0 < fst (snd (lzma_code L e action inp avail))) \<and>
        (inp = [] \<and> action = LZMA_FINISH \<longrightarrow>
           fst (lzma_code L e action inp avail) = LZMA_STREAM_END))"

text \<open>The state of the buffered writer between two calls: \<open>gFileIndexBuf\<close> is the array
  of \<open>CHUNKSIZE\<close> bytes, and it is not full.\<close>

definition stream_ok :: "nat \<Rightarrow> ('e, 'a) pixz_scheme \<Rightarrow> bool" where
  "stream_ok CHUNKSIZE s =
     (length (gFileIndexBuf s) = CHUNKSIZE \<and> gFileIndexBufPos s < CHUNKSIZE)"

text \<open>What the encoding loop leaves alone, and what a write to the buffer leaves alone.\<close>

definition same_but_stream :: "('e, 'a) pixz_scheme \<Rightarrow> ('e, 'a) pixz_scheme \<Rightarrow> bool" where
  "same_but_stream s s' =
     (gFileIndexBuf s' = gFileIndexBuf s \<and> gFileIndexBufPos s' = gFileIndexBufPos s \<and>
      gFileIndex s' = gFileIndex s \<and> gIndex s' = gIndex s \<and>
      gBlockInSize s' = gBlockInSize s \<and> gBlockOutSize s' = gBlockOutSize s)"

definition unchanged :: "('e, 'a) pixz_scheme \<Rightarrow> ('e, 'a) pixz_scheme \<Rightarrow> bool" where
  "unchanged s s' =
     (gFileIndex s' = gFileIndex s \<and> gIndex s' = gIndex s \<and>
      gBlockInSize s' = gBlockInSize s \<and> gBlockOutSize s' = gBlockOutSize s)"

text \<open>The two block sizes are the same in both states.\<close>

definition same_sizes :: "('e, 'a) pixz_scheme \<Rightarrow> ('e, 'a) pixz_scheme \<Rightarrow> bool" where
  "same_sizes s s' =
     (gBlockInSize s' = gBlockInSize s \<and> gBlockOutSize s' = gBlockOutSize s)"

text \<open>An encoder is set up on \<open>gStream\<close>, and the output file never runs out of room.\<close>

definition sink_ok :: "('e, 'a) pixz_scheme \<Rightarrow> bool" where
  "sink_ok s = (coder (gStream s) \<noteq> None \<and> o_room (gOutFile s) = None)"

text \<open>The globals once \<open>lzma_block_encoder\<close> has set up the encoder of the file index.\<close>

definition index_start :: "unit pixz" where
  "index_start = example_start\<lparr>gStream := \<lparr>coder = Some (), next_in = [], consumed = []\<rparr>\<rparr>"

text \<open>Three encoded blocks that reach the writer in the order 1, 0, 2.\<close>

definition enc_block :: "nat \<Rightarrow> byte list \<Rightarrow> io_block_t" where
  "enc_block k bytes =
     example_block\<lparr>seq := k, insize := 8,
       output_buf := bytes @ replicate (16 - length bytes) 0, outsize := length bytes,
       block := \<lparr>version = 0, header_size = 12, check = 1,
                 compressed_size = length bytes, uncompressed_size = 8\<rparr>\<rparr>"

definition writer_start :: "unit pixz" where
  "writer_start =
     example_start\<lparr>gReadQ := [],
       gWriteQ := [MSG_BLOCK (enc_block 1 [11]), MSG_BLOCK (enc_block 0 [10, 10]),
                   MSG_BLOCK (enc_block 2 [12]), MSG_STOP]\<rparr>"

section \<open>Properties of \<open>is_multi_header\<close>\<close>

lemma last_slash_le: "last_slash s n \<le> n"
  by (induction n) auto

lemma strncmp_dot_underscore: "(strncmp s ''._'' 2 = 0) = begins_with ''._'' s"
proof (cases s)
  case Nil
  then show ?thesis
    by (simp add: c_at_def numeral_2_eq_2 Let_def begins_with_def)
next
  case (Cons a t)
  show ?thesis
  proof (cases t)
    case Nil
    then show ?thesis
      using Cons by (auto simp add: c_at_def numeral_2_eq_2 Let_def begins_with_def)
  next
    case (Cons b u)
    then show ?thesis
      using \<open>s = a # t\<close> by (auto simp add: c_at_def numeral_2_eq_2 Let_def begins_with_def)
  qed
qed

lemma last_slash_suffix:
  "n \<le> length s \<Longrightarrow>
   drop (last_slash s n) (take n s) = rev (takeWhile (\<lambda>c. c \<noteq> CHR ''/'') (rev (take n s)))"
proof (induction n)
  case 0
  show ?case by simp
next
  case (Suc j)
  then have j: "j < length s"
    by simp
  have t: "take (Suc j) s = take j s @ [s ! j]"
    using j by (simp add: take_Suc_conv_app_nth)
  show ?case
  proof (cases "s ! j = CHR ''/''")
    case True
    then show ?thesis
      using j t by (simp add: c_at_def)
  next
    case False
    have "last_slash s j \<le> j"
      by (rule last_slash_le)
    then show ?thesis
      using False j t Suc by (simp add: c_at_def)
  qed
qed

lemma strlen_length: "cstring nm \<Longrightarrow> strlen nm = length nm"
  by (induction nm) (auto simp: strlen_def cstring_def)

lemma is_multi_header_final:
  assumes "cstring nm"
  shows "is_multi_header nm = begins_with ''._'' (final_component nm)"
proof -
  have "drop (last_slash nm (strlen nm)) nm = final_component nm"
    using last_slash_suffix[of "length nm" nm] assms
    by (simp add: strlen_length final_component_def)
  then show ?thesis
    by (simp add: is_multi_header_def strncmp_dot_underscore)
qed

text \<open>
  C5. For a pathname given as a C string, \<open>is_multi_header\<close> answers true exactly when
  the final path component (what follows the last \<open>'/'\<close>, or the whole name when
  there is none) begins with the two characters \<open>._\<close>.
\<close>

theorem is_multi_header_iff_final_component:
  "cstring nm \<Longrightarrow> is_multi_header nm = begins_with ''._'' (final_component nm)"
  by (rule is_multi_header_final)

theorem is_multi_header_iff_final_component_witness:
  "cstring ''dir/._x'' \<and> is_multi_header ''dir/._x'' \<and>
   begins_with ''._'' (final_component ''dir/._x'') \<and>
   cstring ''._d/x'' \<and> \<not> is_multi_header ''._d/x'' \<and>
   \<not> begins_with ''._'' (final_component ''._d/x'')"
proof -
  have a: "cstring ''dir/._x''" and b: "cstring ''._d/x''"
    by (simp_all add: cstring_def)
  show ?thesis
    using is_multi_header_iff_final_component[OF a]
      is_multi_header_iff_final_component[OF b] a b
    by (simp add: begins_with_def final_component_def)
qed

section \<open>Properties of \<open>add_file\<close>\<close>

lemma add_file_fragment:
  "is_fragment (off, nm) \<Longrightarrow> chain_ok s \<Longrightarrow>
   chain_ok (add_file off nm s) \<and> gFileIndex (add_file off nm s) = gFileIndex s \<and>
   pending (add_file off nm s) = Some (case pending s of None \<Rightarrow> off | Some q \<Rightarrow> q)"
  by (auto simp: add_file_def is_fragment_def chain_ok_def pending_def split: option.splits)

lemma add_file_member:
  "\<not> is_fragment (off, nm) \<Longrightarrow> chain_ok s \<Longrightarrow>
   chain_ok (add_file off nm s) \<and>
   gFileIndex (add_file off nm s) =
     gFileIndex s @ [\<lparr>name = nm, offset = (case pending s of None \<Rightarrow> off | Some q \<Rightarrow> q)\<rparr>] \<and>
   pending (add_file off nm s) = None"
  by (auto simp: add_file_def is_fragment_def chain_ok_def pending_def Let_def
           split: option.splits)

lemma add_files_collapse:
  "chain_ok s \<Longrightarrow>
   chain_ok (add_files cs s) \<and>
   gFileIndex (add_files cs s) = gFileIndex s @ collapse (pending s) cs"
proof (induction cs arbitrary: s)
  case Nil
  then show ?case by simp
next
  case (Cons c cs)
  obtain off nm where c: "c = (off, nm)"
    by (cases c)
  show ?case
  proof (cases "is_fragment (off, nm)")
    case True
    from add_file_fragment[OF True Cons.prems] Cons.IH[of "add_file off nm s"]
    show ?thesis
      using True c by (simp add: Let_def split: option.splits)
  next
    case False
    from add_file_member[OF False Cons.prems] Cons.IH[of "add_file off nm s"]
    show ?thesis
      using False c by (simp add: Let_def split: option.splits)
  qed
qed

lemma index_of_collapse: "index_of cs = collapse None cs"
  using add_files_collapse[of findex_init cs]
  by (simp add: index_of_def chain_ok_def findex_init_def pending_def)

lemma collapse_fragments:
  "\<forall>c\<in>set fs. is_fragment c \<Longrightarrow> fs \<noteq> [] \<Longrightarrow>
   collapse p (fs @ rest) =
   collapse (Some (case p of None \<Rightarrow> fst (hd fs) | Some q \<Rightarrow> q)) rest"
proof (induction fs arbitrary: p)
  case Nil
  then show ?case by simp
next
  case (Cons f fs)
  show ?case
  proof (cases "fs = []")
    case True
    then show ?thesis
      using Cons.prems by (simp add: Let_def split: option.splits)
  next
    case False
    have "collapse p ((f # fs) @ rest) =
          collapse (Some (case p of None \<Rightarrow> fst f | Some q \<Rightarrow> q)) (fs @ rest)"
      using Cons.prems by (simp add: Let_def)
    also have "\<dots> = collapse (Some (case p of None \<Rightarrow> fst f | Some q \<Rightarrow> q)) rest"
      using Cons.IH[of "Some (case p of None \<Rightarrow> fst f | Some q \<Rightarrow> q)"] Cons.prems False
      by simp
    finally show ?thesis
      by (simp cong: option.case_cong)
  qed
qed

lemma collapse_after_member:
  "xs \<noteq> [] \<Longrightarrow> \<not> is_fragment (last xs) \<Longrightarrow>
   collapse p (xs @ ys) = collapse p xs @ collapse None ys"
proof (induction xs arbitrary: p)
  case Nil
  then show ?case by simp
next
  case (Cons x xs)
  show ?case
  proof (cases "xs = []")
    case True
    then show ?thesis
      using Cons.prems by (simp add: Let_def)
  next
    case False
    then have "\<And>q. collapse q (xs @ ys) = collapse q xs @ collapse None ys"
      using Cons.IH Cons.prems by simp
    then show ?thesis
      by (simp add: Let_def)
  qed
qed

lemma collapse_entries:
  "e \<in> set (collapse p cs) \<Longrightarrow> \<exists>c\<in>set cs. name e = snd c \<and> \<not> is_fragment c"
  by (induction cs arbitrary: p) (auto simp: Let_def split: if_splits)

text \<open>
  C1. In any sequence of \<open>add_file\<close> calls, a maximal run \<open>fs\<close> of one or more
  fragment names that is followed at once by a non-fragment name \<open>nm\<close> yields exactly
  one entry: between the index of the calls before the run and the index of the calls
  after it stands the single entry with the offset of the first fragment and the name
  \<open>nm\<close>. No entry of the index has a pathname whose final component begins with \<open>._\<close>.
\<close>

theorem add_file_collapses_runs:
  assumes "fs \<noteq> []" and "\<forall>c\<in>set fs. is_fragment c" and "\<not> is_fragment (off, nm)"
    and "pre = [] \<or> \<not> is_fragment (last pre)"
    and "\<forall>c\<in>set (pre @ fs @ (off, nm) # post). \<forall>n. snd c = Some n \<longrightarrow> cstring n"
  shows "index_of (pre @ fs @ (off, nm) # post) =
           index_of pre @ \<lparr>name = nm, offset = fst (hd fs)\<rparr> # index_of post \<and>
         (\<forall>e\<in>set (index_of (pre @ fs @ (off, nm) # post)). \<forall>n.
            name e = Some n \<longrightarrow> \<not> begins_with ''._'' (final_component n))"
proof -
  have "collapse None (fs @ (off, nm) # post) =
        \<lparr>name = nm, offset = fst (hd fs)\<rparr> # collapse None post"
    using assms(1,2,3) by (simp add: collapse_fragments Let_def)
  moreover have "collapse None (pre @ rest) = collapse None pre @ collapse None rest" for rest
    using assms(4) by (cases "pre = []") (simp_all add: collapse_after_member)
  ultimately have a: "index_of (pre @ fs @ (off, nm) # post) =
      index_of pre @ \<lparr>name = nm, offset = fst (hd fs)\<rparr> # index_of post"
    by (simp add: index_of_collapse)
  have b: "\<not> begins_with ''._'' (final_component n)"
    if e: "e \<in> set (index_of (pre @ fs @ (off, nm) # post))" and n: "name e = Some n" for e n
  proof -
    from e obtain c where c: "c \<in> set (pre @ fs @ (off, nm) # post)" "name e = snd c"
      "\<not> is_fragment c"
      using collapse_entries unfolding index_of_collapse by blast
    from assms(5) c(1) have "\<forall>m. snd c = Some m \<longrightarrow> cstring m"
      by blast
    with c(2) n have "cstring n"
      by simp
    moreover from c(2,3) n have "\<not> is_multi_header n"
      by (cases "snd c") (auto simp: is_fragment_def)
    ultimately show ?thesis
      by (simp add: is_multi_header_final)
  qed
  show ?thesis
    using a b by blast
qed

theorem add_file_collapses_runs_witness:
  "is_fragment (512, Some ''._b'') \<and> is_fragment (1024, Some ''d/._c'') \<and>
   \<not> is_fragment (1536, Some ''b'') \<and> \<not> is_fragment (0, Some ''a'') \<and>
   index_of [(0, Some ''a''), (512, Some ''._b''), (1024, Some ''d/._c''),
             (1536, Some ''b''), (2048, None)] =
     [\<lparr>name = Some ''a'', offset = 0\<rparr>, \<lparr>name = Some ''b'', offset = 512\<rparr>,
      \<lparr>name = None, offset = 2048\<rparr>]"
proof -
  have f: "is_fragment (512, Some ''._b'')" "is_fragment (1024, Some ''d/._c'')"
    and m: "\<not> is_fragment (1536, Some ''b'')" "\<not> is_fragment (0, Some ''a'')"
    by code_simp+
  have h1: "[(512, Some ''._b''), (1024 :: off_t, Some ''d/._c'')] \<noteq> []"
    by simp
  have h2: "\<forall>c\<in>set [(512, Some ''._b''), (1024, Some ''d/._c'')]. is_fragment c"
    using f by simp
  have h4: "[(0 :: off_t, Some ''a'')] = [] \<or> \<not> is_fragment (last [(0, Some ''a'')])"
    using m by simp
  have h5: "\<forall>c\<in>set ([(0 :: off_t, Some ''a'')] @ [(512, Some ''._b''), (1024, Some ''d/._c'')] @
                      (1536, Some ''b'') # [(2048, None)]).
              \<forall>n. snd c = Some n \<longrightarrow> cstring n"
    by (simp add: cstring_def)
  have pre: "index_of [(0, Some ''a'')] = [\<lparr>name = Some ''a'', offset = 0\<rparr>]"
    and post: "index_of [(2048, None)] = [\<lparr>name = None, offset = 2048\<rparr>]"
    by code_simp+
  show ?thesis
    using add_file_collapses_runs[OF h1 h2 m(1) h4 h5] f m pre post
    by simp
qed

section \<open>Properties of the reader\<close>

lemma acquire_block_facts:
  assumes inv: "reader_inv s"
  shows "acquire_block s \<noteq> Inl Crash"
    and "acquire_block s = Inr (b, s1) \<Longrightarrow>
         length (input_buf b) = gBlockInSize s \<and> insize b \<le> gBlockInSize s \<and>
         (gBlockInSize s \<noteq> 0 \<longrightarrow> insize b < gBlockInSize s) \<and>
         gBlockInSize s1 = gBlockInSize s \<and> gEncodeQ s1 = gEncodeQ s \<and>
         gInFile s1 = gInFile s \<and>
         list_all (full_sized (gBlockInSize s)) (gReadQ s1)"
  using inv
  by (auto simp: acquire_block_def reader_inv_def queue_pop_def full_sized_def Let_def
           split: option.splits list.splits msg.splits)

lemma fread_length: "fread n f = (data, g) \<Longrightarrow> length data \<le> n \<and> (\<not> f_bad g \<longrightarrow> data = take n (f_rest f))"
  by (auto simp: fread_def split: if_splits)

lemma tar_read_step:
  assumes inv: "reader_inv s"
  shows "tar_read CHUNKSIZE s \<noteq> Inl Crash \<and>
    (\<forall>rd s'. tar_read CHUNKSIZE s = Inr (rd, s') \<longrightarrow>
       (\<exists>b s1. acquire_block s = Inr (b, s1) \<and>
          rd \<le> min CHUNKSIZE (gBlockInSize s - insize b) \<and>
          insize b + rd \<le> length (input_buf b) \<and>
          length (input_buf b) = gBlockInSize s \<and>
          (let b' = b\<lparr>input_buf := take (insize b) (input_buf b) @
                                     take rd (f_rest (gInFile s)) @
                                     drop (insize b + rd) (input_buf b),
                        insize := insize b + rd\<rparr>
           in if insize b + rd = gBlockInSize s
              then gReadBlock s' = None \<and> gEncodeQ s' = gEncodeQ s @ [MSG_BLOCK b']
              else gReadBlock s' = Some b' \<and> gEncodeQ s' = gEncodeQ s) \<and>
          reader_inv s'))"
proof (cases "acquire_block s")
  case (Inl e)
  with acquire_block_facts(1)[OF inv] show ?thesis
    by (simp add: tar_read_def)
next
  case (Inr p)
  obtain b s1 where p: "p = (b, s1)" by (cases p)
  note acq = Inr[unfolded p]
  note facts = acquire_block_facts(2)[OF inv acq]
  define space where "space = min CHUNKSIZE (gBlockInSize s - insize b)"
  have space: "(if size_sub (gBlockInSize s1) (insize b) > CHUNKSIZE then CHUNKSIZE
               else size_sub (gBlockInSize s1) (insize b)) = space"
    using facts by (auto simp: size_sub_def space_def)
  obtain data f where fr: "fread space (gInFile s1) = (data, f)"
    by (cases "fread space (gInFile s1)")
  have len: "length data \<le> space" and data: "\<not> f_bad f \<Longrightarrow> data = take space (f_rest (gInFile s))"
    using fread_length[OF fr] facts by auto
  have fits: "insize b + length data \<le> length (input_buf b)"
    using len facts unfolding space_def by linarith
  have tk: "\<not> f_bad f \<Longrightarrow> take (length data) (f_rest (gInFile s)) = data"
    using data by (simp add: min_def)
  have rdle: "length data \<le> min CHUNKSIZE (gBlockInSize s - insize b)"
    using len by (simp add: space_def)
  have bw: "buf_write (input_buf b) (insize b) data =
            Some (take (insize b) (input_buf b) @ data @ drop (insize b + length data) (input_buf b))"
    using fits by (simp add: buf_write_def)
  show ?thesis
  proof (cases "f_bad f")
    case True
    then show ?thesis
      using acq space fr bw by (simp add: tar_read_def Let_def ferror_def)
  next
    case False
    note tk' = tk[OF False]
    define b' where "b' = b\<lparr>input_buf := take (insize b) (input_buf b) @ data @
                                 drop (insize b + length data) (input_buf b),
                         insize := insize b + length data\<rparr>"
    define s2 where "s2 = s1\<lparr>gInFile := f, gTotalRead := gTotalRead s1 + of_nat (length data)\<rparr>"
    define s' where "s' = (if insize b + length data = gBlockInSize s
        then s2\<lparr>gEncodeQ := queue_push (gEncodeQ s2) (MSG_BLOCK b'), gReadBlock := None\<rparr>
        else s2\<lparr>gReadBlock := Some b'\<rparr>)"
    have res: "tar_read CHUNKSIZE s = Inr (length data, s')"
      using acq space fr bw False facts
      by (simp add: tar_read_def Let_def ferror_def s'_def s2_def b'_def)
    have q: "gReadQ s' = gReadQ s1" "gBlockInSize s' = gBlockInSize s"
      using facts by (simp_all add: s'_def s2_def)
    have lb: "length (input_buf b') = gBlockInSize s"
      using fits facts by (simp add: b'_def)
    have inv': "reader_inv s'"
      using facts q lb fits by (auto simp: reader_inv_def s'_def s2_def b'_def)
    have post: "if insize b + length data = gBlockInSize s
              then gReadBlock s' = None \<and> gEncodeQ s' = gEncodeQ s @ [MSG_BLOCK b']
              else gReadBlock s' = Some b' \<and> gEncodeQ s' = gEncodeQ s"
      using facts by (simp add: s'_def s2_def queue_push_def)
    show ?thesis
      unfolding res using acq rdle fits facts post inv' tk'
      by (simp add: b'_def Let_def)
  qed
qed

lemma fill_free_queue_inv:
  "gReadBlock s = None \<Longrightarrow> list_all (full_sized (gBlockInSize s)) (gReadQ s) \<Longrightarrow>
   reader_inv (fill_free_queue k s) \<and> gBlockInSize (fill_free_queue k s) = gBlockInSize s"
proof (induction k arbitrary: s)
  case 0
  then show ?case by (simp add: reader_inv_def)
next
  case (Suc k)
  let ?t = "s\<lparr>gReadQ := queue_push (gReadQ s) (MSG_BLOCK (new_block s))\<rparr>"
  have "full_sized (gBlockInSize s) (MSG_BLOCK (new_block s))"
    by (simp add: full_sized_def new_block_def malloc_def)
  then have "gReadBlock ?t = None" "list_all (full_sized (gBlockInSize ?t)) (gReadQ ?t)"
    using Suc.prems by (simp_all add: queue_push_def)
  from Suc.IH[OF this] show ?case by simp
qed

lemma main_setup_reader_inv:
  "main_setup L CHUNKSIZE n fin fout = Inr s \<Longrightarrow> reader_inv s"
  by (auto simp: main_setup_def Let_def globals_init_def fill_free_queue_inv split: option.splits)

lemma tar_read_keeps:
  assumes "reader_inv s" and "tar_read CHUNKSIZE s = Inr (rd, s')"
  shows "reader_inv s' \<and> gBlockInSize s' = gBlockInSize s \<and>
         gFileIndex s' = gFileIndex s \<and> gLastFile s' = gLastFile s \<and>
         gMultiHeader s' = gMultiHeader s \<and> gMultiHeaderStart s' = gMultiHeaderStart s \<and>
         gNumEncodeThreads s' = gNumEncodeThreads s \<and> gWriteQ s' = gWriteQ s \<and>
         gBlockOutSize s' = gBlockOutSize s \<and>
         (0 < gBlockInSize s \<longrightarrow> nonempty_blocks (gEncodeQ s) \<longrightarrow> nonempty_blocks (gEncodeQ s'))"
proof -
  from tar_read_step[OF assms(1), of CHUNKSIZE] assms(2)
  obtain b s1 where acq: "acquire_block s = Inr (b, s1)"
    and post: "(let b' = b\<lparr>input_buf := take (insize b) (input_buf b) @
                                     take rd (f_rest (gInFile s)) @
                                     drop (insize b + rd) (input_buf b),
                        insize := insize b + rd\<rparr>
           in if insize b + rd = gBlockInSize s
              then gReadBlock s' = None \<and> gEncodeQ s' = gEncodeQ s @ [MSG_BLOCK b']
              else gReadBlock s' = Some b' \<and> gEncodeQ s' = gEncodeQ s)"
    and inv': "reader_inv s'"
    by blast
  have ne: "nonempty_blocks (gEncodeQ s')" if "0 < gBlockInSize s" "nonempty_blocks (gEncodeQ s)"
    using post that by (auto simp: Let_def nonempty_blocks_def nonempty_block_def split: if_splits)
  have frame1: "gBlockInSize s1 = gBlockInSize s \<and>
         gFileIndex s1 = gFileIndex s \<and> gLastFile s1 = gLastFile s \<and>
         gMultiHeader s1 = gMultiHeader s \<and> gMultiHeaderStart s1 = gMultiHeaderStart s \<and>
         gNumEncodeThreads s1 = gNumEncodeThreads s \<and> gWriteQ s1 = gWriteQ s \<and>
         gBlockOutSize s1 = gBlockOutSize s"
    using acq by (auto simp: acquire_block_def Let_def queue_pop_def
                       split: option.splits list.splits msg.splits)
  have frame2: "gBlockInSize s' = gBlockInSize s1 \<and>
         gFileIndex s' = gFileIndex s1 \<and> gLastFile s' = gLastFile s1 \<and>
         gMultiHeader s' = gMultiHeader s1 \<and> gMultiHeaderStart s' = gMultiHeaderStart s1 \<and>
         gNumEncodeThreads s' = gNumEncodeThreads s1 \<and> gWriteQ s' = gWriteQ s1 \<and>
         gBlockOutSize s' = gBlockOutSize s1"
    using assms(2) acq
    by (auto simp: tar_read_def Let_def split: option.splits if_splits prod.splits)
  show ?thesis
    using inv' ne frame1 frame2 by simp
qed

lemma add_file_reader_fields:
  "gReadBlock (add_file off nm s) = gReadBlock s \<and> gReadQ (add_file off nm s) = gReadQ s \<and>
   gEncodeQ (add_file off nm s) = gEncodeQ s \<and> gBlockInSize (add_file off nm s) = gBlockInSize s \<and>
   gBlockOutSize (add_file off nm s) = gBlockOutSize s \<and>
   gTotalRead (add_file off nm s) = gTotalRead s \<and>
   gNumEncodeThreads (add_file off nm s) = gNumEncodeThreads s \<and>
   gWriteQ (add_file off nm s) = gWriteQ s"
  by (simp add: add_file_def Let_def split: option.splits)

lemma add_file_reader_inv: "reader_inv (add_file off nm s) = reader_inv s"
  by (simp add: reader_inv_def add_file_reader_fields cong: option.case_cong)

lemma read_headers_ok:
  "reader_ok s \<Longrightarrow> read_headers CHUNKSIZE script s = Inr s' \<Longrightarrow>
   reader_ok s' \<and> gBlockInSize s' = gBlockInSize s \<and> gBlockOutSize s' = gBlockOutSize s \<and>
   gNumEncodeThreads s' = gNumEncodeThreads s"
proof (induction script arbitrary: s)
  case Nil
  then show ?case by simp
next
  case (Cons e es)
  show ?case
  proof (cases e)
    case Pull
    with Cons.prems(2) obtain rd s1 where tr: "tar_read CHUNKSIZE s = Inr (rd, s1)"
      and rest: "read_headers CHUNKSIZE es s1 = Inr s'"
      by (auto split: sum.splits)
    from Cons.prems(1) have inv: "reader_inv s"
      by (simp add: reader_ok_def)
    from tar_read_keeps[OF inv tr] Cons.prems(1) have "reader_ok s1" 
      and eq: "gBlockInSize s1 = gBlockInSize s" "gBlockOutSize s1 = gBlockOutSize s"
        "gNumEncodeThreads s1 = gNumEncodeThreads s"
      by (simp_all add: reader_ok_def)
    from Cons.IH[OF this(1) rest] eq show ?thesis by simp
  next
    case (Header pos nm)
    with Cons.prems(2) have rest: "read_headers CHUNKSIZE es (add_file pos nm s) = Inr s'"
      by simp
    have "reader_ok (add_file pos nm s)"
      using Cons.prems(1) by (simp add: reader_ok_def add_file_reader_inv add_file_reader_fields)
    from Cons.IH[OF this rest] show ?thesis
      by (simp add: add_file_reader_fields)
  next
    case Failure
    with Cons.prems(2) show ?thesis by simp
  qed
qed

lemma stop_encoders_nonempty:
  "nonempty_blocks q \<Longrightarrow> nonempty_blocks (stop_encoders n q)"
  by (induction n arbitrary: q) (simp_all add: nonempty_blocks_def nonempty_block_def queue_push_def)

lemma flush_last_rule:
  "gReadBlock t = Some b \<Longrightarrow>
     gReadBlock (flush_last t) = None \<and>
     (if 0 < insize b
      then gEncodeQ (flush_last t) = gEncodeQ t @ [MSG_BLOCK b] \<and> gReadQ (flush_last t) = gReadQ t
      else gEncodeQ (flush_last t) = gEncodeQ t \<and> gReadQ (flush_last t) = gReadQ t @ [MSG_BLOCK b])"
  by (simp add: flush_last_def queue_push_def)

lemma flush_last_nonempty:
  "nonempty_blocks (gEncodeQ t) \<Longrightarrow> nonempty_blocks (gEncodeQ (flush_last t))"
  by (auto simp: flush_last_def queue_push_def nonempty_blocks_def nonempty_block_def
           split: option.splits)

lemma tar_read_frame:
  assumes "tar_read CHUNKSIZE s = Inr (rd, s')"
  shows "gFileIndex s' = gFileIndex s \<and> gLastFile s' = gLastFile s \<and>
         gMultiHeader s' = gMultiHeader s \<and> gMultiHeaderStart s' = gMultiHeaderStart s"
proof -
  from assms obtain b s1 where acq: "acquire_block s = Inr (b, s1)"
    by (auto simp: tar_read_def split: sum.splits)
  have frame1: "gFileIndex s1 = gFileIndex s \<and> gLastFile s1 = gLastFile s \<and>
         gMultiHeader s1 = gMultiHeader s \<and> gMultiHeaderStart s1 = gMultiHeaderStart s"
    using acq by (auto simp: acquire_block_def Let_def queue_pop_def
                       split: option.splits list.splits msg.splits)
  have frame2: "gFileIndex s' = gFileIndex s1 \<and> gLastFile s' = gLastFile s1 \<and>
         gMultiHeader s' = gMultiHeader s1 \<and> gMultiHeaderStart s' = gMultiHeaderStart s1"
    using assms acq
    by (auto simp: tar_read_def Let_def split: option.splits if_splits prod.splits)
  show ?thesis
    using frame1 frame2 by simp
qed

lemma collapse_append:
  "collapse p (xs @ ys) = collapse p xs @ collapse (remembered p xs) ys"
  by (induction xs arbitrary: p) (simp_all add: Let_def)

lemma read_headers_index:
  "chain_ok s \<Longrightarrow> read_headers CHUNKSIZE script s = Inr s1 \<Longrightarrow>
   chain_ok s1 \<and> gFileIndex s1 = gFileIndex s @ collapse (pending s) (headers script) \<and>
   pending s1 = remembered (pending s) (headers script)"
proof (induction script arbitrary: s)
  case Nil
  then show ?case by simp
next
  case (Cons e es)
  show ?case
  proof (cases e)
    case Pull
    with Cons.prems(2) obtain rd s2 where tr: "tar_read CHUNKSIZE s = Inr (rd, s2)"
      and rest: "read_headers CHUNKSIZE es s2 = Inr s1"
      by (auto split: sum.splits)
    from tar_read_frame[OF tr] Cons.prems(1)
    have same: "chain_ok s2" "gFileIndex s2 = gFileIndex s" "pending s2 = pending s"
      by (simp_all add: chain_ok_def pending_def cong: option.case_cong)
    from Cons.IH[OF same(1) rest] same Pull show ?thesis
      by simp
  next
    case (Header pos nm)
    with Cons.prems(2) have rest: "read_headers CHUNKSIZE es (add_file pos nm s) = Inr s1"
      by simp
    show ?thesis
    proof (cases "is_fragment (pos, nm)")
      case True
      from add_file_fragment[OF True Cons.prems(1)]
        Cons.IH[OF _ rest] True Header
      show ?thesis
        by (simp add: Let_def cong: option.case_cong)
    next
      case False
      from add_file_member[OF False Cons.prems(1)]
        Cons.IH[OF _ rest] False Header
      show ?thesis
        by (simp add: Let_def cong: option.case_cong)
    qed
  next
    case Failure
    with Cons.prems(2) show ?thesis by simp
  qed
qed

lemma collapse_unnamed:
  "length (filter (\<lambda>e. name e = None) (collapse p cs)) =
   length (filter (\<lambda>c. snd c = None) cs)"
  by (induction cs arbitrary: p) (auto simp: Let_def is_fragment_def)

lemma remembered_snoc:
  "remembered p (cs @ [c]) =
     (if is_fragment c then Some (case remembered p cs of None \<Rightarrow> fst c | Some q \<Rightarrow> q)
      else None)"
  by (induction cs arbitrary: p) simp_all

lemma trailing_fragments_snoc:
  "trailing_fragments (cs @ [c]) = (if is_fragment c then trailing_fragments cs @ [c] else [])"
  by (simp add: trailing_fragments_def)

lemma remembered_trailing:
  "remembered None cs = (case trailing_fragments cs of [] \<Rightarrow> None | f # fs \<Rightarrow> Some (fst f))"
proof (induction cs rule: rev_induct)
  case Nil
  show ?case by (simp add: trailing_fragments_def)
next
  case (snoc c cs)
  show ?case
    using snoc.IH
    by (auto simp: remembered_snoc trailing_fragments_snoc split: list.splits)
qed

lemma fill_free_queue_frame:
  "gEncodeQ (fill_free_queue k s) = gEncodeQ s \<and>
   gBlockInSize (fill_free_queue k s) = gBlockInSize s \<and>
   gBlockOutSize (fill_free_queue k s) = gBlockOutSize s \<and>
   gNumEncodeThreads (fill_free_queue k s) = gNumEncodeThreads s"
  by (induction k arbitrary: s) simp_all

lemma main_setup_reader_ok:
  assumes "main_setup L CHUNKSIZE n fin fout = Inr s" and "lzma_lzma_preset L = Some d"
    and "0 < d"
  shows "reader_ok s"
proof -
  have "reader_inv s"
    using assms(1) by (rule main_setup_reader_inv)
  moreover have "gBlockInSize s = d * 2 \<and> gEncodeQ s = []"
    using assms(1,2)
    by (auto simp: main_setup_def Let_def globals_init_def fill_free_queue_frame)
  ultimately show ?thesis
    using assms(3) by (simp add: reader_ok_def nonempty_blocks_def)
qed

subsection \<open>The small instance, evaluated\<close>

lemma fill_free_queue_numeral:
  "fill_free_queue (numeral k) s =
   fill_free_queue (pred_numeral k)
     (s\<lparr>gReadQ := queue_push (gReadQ s) (MSG_BLOCK (new_block s))\<rparr>)"
  by (simp add: numeral_eq_Suc)

lemma example_start_value:
  "example_start =
     \<lparr>gFileIndex = [], gLastFile = None, gMultiHeader = False, gMultiHeaderStart = 0,
      gInFile = example_in, gOutFile = example_out,
      gReadQ = [MSG_BLOCK example_block, MSG_BLOCK example_block, MSG_BLOCK example_block,
                MSG_BLOCK example_block, MSG_BLOCK example_block, MSG_BLOCK example_block],
      gEncodeQ = [], gWriteQ = [],
      gBlockInSize = 8, gBlockOutSize = 16, gNumEncodeThreads = 1, gTotalRead = 0,
      gBlockNum = 0, gReadBlock = None, gIndex = [],
      gStream = \<lparr>coder = None, next_in = [], consumed = []\<rparr>,
      gFileIndexBuf = replicate 4 0, gFileIndexBufPos = 0\<rparr>"
  by (simp add: example_start_def main_setup_def store_codec_def block_count_def
      size_to_int_def int_to_size_def Let_def globals_init_def fill_free_queue_numeral
      new_block_def malloc_def queue_push_def example_block_def)

lemma main_setup_example:
  "main_setup store_codec 4 1 example_in example_out = Inr example_start"
  by (simp add: example_start_def main_setup_def store_codec_def)

lemma example_names:
  "is_multi_header ''._a''" "\<not> is_multi_header ''a''"
  by code_simp+

lemmas reader_simps = example_start_value example_block_def tar_read_def acquire_block_def
  queue_pop_def queue_push_def size_sub_def fread_def example_in_def buf_write_def ferror_def
  Let_def read_thread_def add_file_def example_names flush_last_def

lemma appledouble_run_value:
  "\<not> isl appledouble_run \<and> gTotalRead (projr appledouble_run) = 10 \<and>
   gFileIndex (projr appledouble_run) = [\<lparr>name = None, offset = 0\<rparr>]"
  by (simp add: appledouble_run_def reader_simps)

lemma member_run_value:
  "\<not> isl member_run \<and> gTotalRead (projr member_run) = 10 \<and>
   gFileIndex (projr member_run) =
     [\<lparr>name = Some ''a'', offset = 0\<rparr>, \<lparr>name = None, offset = 10\<rparr>] \<and>
   queue_summary (gEncodeQ (projr member_run)) = [Some (0, 8), Some (1, 2), None]"
  by (simp add: member_run_def reader_simps queue_summary_def)

lemma full_block_run_value:
  "\<not> isl full_block_run \<and>
   queue_summary (gEncodeQ (projr full_block_run)) = [Some (0, 8), None] \<and>
   queue_summary (drop 4 (gReadQ (projr full_block_run))) = [Some (1, 0)]"
  by (simp add: full_block_run_def reader_simps queue_summary_def)

lemma tar_read_count:
  assumes "tar_read CHUNKSIZE s = Inr (rd, s')"
  shows "gTotalRead s' = gTotalRead s + of_nat rd \<and>
         f_rest (gInFile s') = drop rd (f_rest (gInFile s)) \<and>
         rd \<le> length (f_rest (gInFile s))"
proof -
  from assms obtain b s1 where acq: "acquire_block s = Inr (b, s1)"
    by (auto simp: tar_read_def split: sum.splits)
  have same: "gInFile s1 = gInFile s" "gTotalRead s1 = gTotalRead s"
    using acq by (auto simp: acquire_block_def Let_def queue_pop_def
                       split: option.splits list.splits msg.splits)
  define n where "n = (if size_sub (gBlockInSize s1) (insize b) > CHUNKSIZE then CHUNKSIZE
                       else size_sub (gBlockInSize s1) (insize b))"
  obtain data f where fr: "fread n (gInFile s) = (data, f)"
    by (cases "fread n (gInFile s)")
  from assms acq fr same have ok: "\<not> f_bad f" and rd: "rd = length data"
    and s': "gTotalRead s' = gTotalRead s + of_nat (length data)" "gInFile s' = f"
    by (auto simp: tar_read_def Let_def n_def ferror_def split: option.splits if_splits)
  from fr ok have "data = take n (f_rest (gInFile s))" "f_rest f = drop n (f_rest (gInFile s))"
    by (auto simp: fread_def split: if_splits)
  then show ?thesis
    using rd s' by (auto simp: min_def)
qed

lemma add_file_input:
  "gInFile (add_file off nm s) = gInFile s"
  by (simp add: add_file_def Let_def split: option.splits)

lemma read_headers_count:
  "read_headers CHUNKSIZE script s = Inr s1 \<Longrightarrow>
   \<exists>k. k \<le> length (f_rest (gInFile s)) \<and>
       f_rest (gInFile s1) = drop k (f_rest (gInFile s)) \<and>
       gTotalRead s1 = gTotalRead s + of_nat k"
proof (induction script arbitrary: s)
  case Nil
  then show ?case
    by (intro exI[of _ 0]) simp
next
  case (Cons e es)
  show ?case
  proof (cases e)
    case Pull
    with Cons.prems obtain rd s2 where tr: "tar_read CHUNKSIZE s = Inr (rd, s2)"
      and rest: "read_headers CHUNKSIZE es s2 = Inr s1"
      by (auto split: sum.splits)
    from tar_read_count[OF tr]
    have c: "gTotalRead s2 = gTotalRead s + of_nat rd"
      "f_rest (gInFile s2) = drop rd (f_rest (gInFile s))" "rd \<le> length (f_rest (gInFile s))"
      by simp_all
    from Cons.IH[OF rest] obtain k where k: "k \<le> length (f_rest (gInFile s2))"
      "f_rest (gInFile s1) = drop k (f_rest (gInFile s2))"
      "gTotalRead s1 = gTotalRead s2 + of_nat k"
      by blast
    have le: "rd + k \<le> length (f_rest (gInFile s))"
      using c(2,3) k(1) by simp
    have dr: "f_rest (gInFile s1) = drop (rd + k) (f_rest (gInFile s))"
      using c k(2) by (simp add: add.commute)
    have tot: "gTotalRead s1 = gTotalRead s + of_nat (rd + k)"
      using c k(3) by simp
    show ?thesis
      using le dr tot by blast
  next
    case (Header pos nm)
    with Cons.prems have rest: "read_headers CHUNKSIZE es (add_file pos nm s) = Inr s1"
      by simp
    from Cons.IH[OF rest] show ?thesis
      by (simp add: add_file_input add_file_reader_fields)
  next
    case Failure
    with Cons.prems show ?thesis by simp
  qed
qed

lemma stop_encoders_append: "stop_encoders n q = q @ replicate n MSG_STOP"
  by (induction n arbitrary: q) (simp_all add: queue_push_def replicate_app_Cons_same)

lemma read_thread_end:
  assumes "read_thread CHUNKSIZE script joined s = Inr s'"
  shows "\<exists>s1. read_headers CHUNKSIZE script s = Inr s1 \<and> gReadBlock s' = None \<and>
           (case gReadBlock s1 of
              None \<Rightarrow>
                gEncodeQ s' = gEncodeQ s1 @ replicate (gNumEncodeThreads s1) MSG_STOP \<and>
                gReadQ s' = gReadQ s1
            | Some b \<Rightarrow>
                if 0 < insize b
                then gEncodeQ s' = gEncodeQ s1 @ MSG_BLOCK b #
                                     replicate (gNumEncodeThreads s1) MSG_STOP \<and>
                     gReadQ s' = gReadQ s1
                else gEncodeQ s' = gEncodeQ s1 @ replicate (gNumEncodeThreads s1) MSG_STOP \<and>
                     gReadQ s' = gReadQ s1 @ [MSG_BLOCK b])"
proof -
  from assms obtain s1 where rh: "read_headers CHUNKSIZE script s = Inr s1"
    by (auto simp: read_thread_def split: sum.splits)
  let ?s2 = "add_file (gTotalRead s1) None s1"
  have s2: "gReadBlock ?s2 = gReadBlock s1" "gEncodeQ ?s2 = gEncodeQ s1"
    "gReadQ ?s2 = gReadQ s1" "gNumEncodeThreads ?s2 = gNumEncodeThreads s1"
    by (simp_all add: add_file_reader_fields)
  have s': "s' = (flush_last ?s2)
      \<lparr>gEncodeQ := stop_encoders (gNumEncodeThreads (flush_last ?s2)) (gEncodeQ (flush_last ?s2)),
       gWriteQ := queue_push (gWriteQ (flush_last ?s2)) MSG_STOP\<rparr>"
    using assms rh by (auto simp: read_thread_def Let_def split: if_splits)
  show ?thesis
  proof (cases "gReadBlock s1")
    case None
    then show ?thesis
      using rh s2 by (simp add: s' flush_last_def stop_encoders_append)
  next
    case (Some b)
    then show ?thesis
      using rh s2 by (simp add: s' flush_last_def stop_encoders_append queue_push_def)
  qed
qed

subsection \<open>The encoder threads\<close>

lemma blocks_before_stop_pop:
  "queue_pop q = Some (MSG_BLOCK ib, r) \<Longrightarrow> blocks_before_stop q = ib # blocks_before_stop r"
  "queue_pop q = Some (MSG_STOP, r) \<Longrightarrow> blocks_before_stop q = []"
  by (auto simp: queue_pop_def split: list.splits)

lemma encode_block_insize:
  "encode_block L CHECK bound ib = Inr ib' \<Longrightarrow> insize ib' = insize ib \<and> seq ib' = seq ib"
  by (auto simp: encode_block_def Let_def split: sum.splits option.splits if_splits)

lemma encode_thread_blocks:
  "encode_thread L CHECK s = Inr s' \<Longrightarrow>
   \<exists>bs. gWriteQ s' = gWriteQ s @ map MSG_BLOCK bs \<and>
        map insize bs = map insize (blocks_before_stop (gEncodeQ s)) \<and>
        map seq bs = map seq (blocks_before_stop (gEncodeQ s))"
proof (induction L CHECK s rule: encode_thread.induct)
  case (1 L CHECK s)
  show ?case
  proof (cases "queue_pop (gEncodeQ s)")
    case None
    with "1.prems" show ?thesis by simp
  next
    case (Some p)
    obtain m q where p: "p = (m, q)" by (cases p)
    note pop = Some[unfolded p]
    show ?thesis
    proof (cases m)
      case MSG_STOP
      with pop "1.prems" have "s' = s\<lparr>gEncodeQ := q\<rparr>"
        by simp
      with blocks_before_stop_pop(2)[OF pop[unfolded MSG_STOP]] show ?thesis
        by (intro exI[of _ "[]"]) simp
    next
      case (MSG_BLOCK ib)
      note pop' = pop[unfolded MSG_BLOCK]
      from "1.prems" pop' obtain ib' where
        eb: "encode_block L CHECK (gBlockOutSize s) ib = Inr ib'"
        and rec: "encode_thread L CHECK
                 (s\<lparr>gEncodeQ := q,
                    gWriteQ := queue_push (gWriteQ s) (MSG_BLOCK ib')\<rparr>) = Inr s'"
        by (auto split: sum.splits)
      from "1.IH"[OF pop refl MSG_BLOCK eb rec] obtain bs where bs:
        "gWriteQ s' = queue_push (gWriteQ s) (MSG_BLOCK ib') @ map MSG_BLOCK bs"
        "map insize bs = map insize (blocks_before_stop q)"
        "map seq bs = map seq (blocks_before_stop q)"
        by auto
      show ?thesis
        using bs encode_block_insize[OF eb] blocks_before_stop_pop(1)[OF pop']
        by (intro exI[of _ "ib' # bs"]) (simp add: queue_push_def)
    qed
  qed
qed

lemma nonempty_before_stop:
  "nonempty_blocks q \<Longrightarrow> list_all (\<lambda>k. 0 < k) (map insize (blocks_before_stop q))"
  by (induction q rule: blocks_before_stop.induct)
     (simp_all add: nonempty_blocks_def nonempty_block_def)

subsection \<open>Runs of the small instance\<close>

lemma null_pathname_run_value:
  "\<not> isl null_pathname_run \<and>
   gFileIndex (projr null_pathname_run) =
     [\<lparr>name = None, offset = 0\<rparr>, \<lparr>name = Some ''a'', offset = 4\<rparr>,
      \<lparr>name = None, offset = 10\<rparr>]"
  by (simp add: null_pathname_run_def reader_simps)

lemma member_run_input:
  "length (f_rest (gInFile example_start)) = 10 \<and>
   length (f_rest (gInFile (projr member_run))) = 0 \<and> gTotalRead example_start = 0"
  by (simp add: member_run_def reader_simps)

lemma member_run_ok: "member_run = Inr (projr member_run)"
  using member_run_value by (cases member_run) simp_all

lemma member_run_read:
  "read_thread 4 [Pull, Header 0 (Some ''._a''), Pull, Header 4 (Some ''a''), Pull] True
     example_start = Inr (projr member_run)"
  using member_run_ok by (simp only: member_run_def[symmetric])

lemma full_block_run_ok: "full_block_run = Inr (projr full_block_run)"
  using full_block_run_value by (cases full_block_run) simp_all

lemma full_block_run_read:
  "read_thread 4 [Pull, Header 0 (Some ''a''), Pull, Pull] True
     (example_start\<lparr>gInFile := \<lparr>f_rest = [1, 2, 3, 4, 5, 6, 7, 8], f_bad = False\<rparr>\<rparr>) =
   Inr (projr full_block_run)"
  using full_block_run_ok by (simp only: full_block_run_def[symmetric])

lemma member_run_encoded:
  "encode_thread store_codec 1 (projr member_run) =
     Inr (projr (encode_thread store_codec 1 (projr member_run))) \<and>
   queue_summary (gWriteQ (projr member_run)) = [None] \<and>
   queue_summary (gWriteQ (projr (encode_thread store_codec 1 (projr member_run)))) =
     [None, Some (0, 8), Some (1, 2)]"
  by (simp add: member_run_def reader_simps queue_summary_def encode_block_def block_init_def
      store_codec_def LZMA_VLI_UNKNOWN_def)

lemma null_pathname_run_ok: "null_pathname_run = Inr (projr null_pathname_run)"
  using null_pathname_run_value by (cases null_pathname_run) simp_all

lemma null_pathname_run_read:
  "read_thread 4 [Pull, Header 0 None, Pull, Header 4 (Some ''a''), Pull] True example_start =
     Inr (projr null_pathname_run)"
  using null_pathname_run_ok by (simp only: null_pathname_run_def[symmetric])

lemma null_pathname_run_input:
  "length (f_rest (gInFile (projr null_pathname_run))) = 0 \<and>
   gTotalRead (projr null_pathname_run) = 10"
  by (simp add: null_pathname_run_def reader_simps)

lemma full_block_start:
  "reader_inv (example_start\<lparr>gInFile := \<lparr>f_rest = [1, 2, 3, 4, 5, 6, 7, 8], f_bad = False\<rparr>\<rparr>) \<and>
   0 < gBlockInSize example_start \<and> nonempty_blocks (gEncodeQ example_start)"
  using main_setup_reader_ok[OF main_setup_example, of 4]
  by (simp add: store_codec_def reader_ok_def reader_inv_def cong: option.case_cong)

subsection \<open>The claims about the reader\<close>

text \<open>
  C9. The state that \<open>main\<close> starts the reader on satisfies the reader's invariant, and
  from any state that does, a call of \<open>tar_read\<close> never writes past the input buffer
  (no undefined behaviour); if it returns \<open>rd\<close>, then \<open>rd\<close> is at most
  \<open>min (CHUNKSIZE, gBlockInSize - insize)\<close> for the block being filled, the \<open>rd\<close> bytes
  read from the input are stored in its buffer from position \<open>insize\<close> on, within the
  \<open>gBlockInSize\<close> bytes of the buffer, \<open>insize\<close> grows by exactly \<open>rd\<close>, the block is
  pushed onto the encode queue exactly when its \<open>insize\<close> has reached \<open>gBlockInSize\<close>,
  and the invariant (\<open>insize\<close> below \<open>gBlockInSize\<close> for the current block) holds again.
\<close>

theorem tar_read_within_block:
  "(main_setup L CHUNKSIZE n fin fout = Inr s0 \<longrightarrow> reader_inv s0) \<and>
   (reader_inv s \<longrightarrow>
    tar_read CHUNKSIZE s \<noteq> Inl Crash \<and>
    (\<forall>rd s'. tar_read CHUNKSIZE s = Inr (rd, s') \<longrightarrow>
       (\<exists>b s1. acquire_block s = Inr (b, s1) \<and>
          rd \<le> min CHUNKSIZE (gBlockInSize s - insize b) \<and>
          insize b + rd \<le> length (input_buf b) \<and>
          length (input_buf b) = gBlockInSize s \<and>
          (let b' = b\<lparr>input_buf := take (insize b) (input_buf b) @
                                     take rd (f_rest (gInFile s)) @
                                     drop (insize b + rd) (input_buf b),
                        insize := insize b + rd\<rparr>
           in if insize b + rd = gBlockInSize s
              then gReadBlock s' = None \<and> gEncodeQ s' = gEncodeQ s @ [MSG_BLOCK b']
              else gReadBlock s' = Some b' \<and> gEncodeQ s' = gEncodeQ s) \<and>
          reader_inv s')))"
  using main_setup_reader_inv tar_read_step by blast

theorem tar_read_within_block_witness:
  "main_setup store_codec 4 1 example_in example_out = Inr example_start \<and>
   reader_inv example_start \<and>
   tar_read 4 example_start \<noteq> Inl Crash \<and>
   fst (projr (tar_read 4 example_start)) = 4 \<and>
   queue_summary (map MSG_BLOCK
      (case gReadBlock (snd (projr (tar_read 4 example_start))) of
         None \<Rightarrow> [] | Some b \<Rightarrow> [b])) = [Some (0, 4)] \<and>
   reader_inv (snd (projr (tar_read 4 example_start)))"
proof -
  have r: "tar_read 4 example_start = Inr (4, snd (projr (tar_read 4 example_start)))"
    by (simp add: reader_simps)
  have v: "fst (projr (tar_read 4 example_start)) = 4"
    "queue_summary (map MSG_BLOCK
      (case gReadBlock (snd (projr (tar_read 4 example_start))) of
         None \<Rightarrow> [] | Some b \<Rightarrow> [b])) = [Some (0, 4)]"
    by (simp_all add: reader_simps queue_summary_def)
  from tar_read_within_block[where L = store_codec and CHUNKSIZE = 4 and n = 1
      and fin = example_in and fout = example_out and ?s0.0 = example_start
      and s = example_start] main_setup_example r v
  show ?thesis
    by blast
qed

text \<open>
  C6. A block with \<open>insize = 0\<close> is never pushed onto the encode queue, and no encoder
  compresses one. When \<open>read_thread\<close> starts in a state that satisfies the reader's
  invariant, with a positive \<open>gBlockInSize\<close> and no empty block in the encode queue, and
  returns, every block in the encode queue has \<open>insize > 0\<close>; moreover, with \<open>s1\<close> the
  state in which the archive ended, the reader has given up its current block and has
  appended to the encode queue of \<open>s1\<close> that block if and only if there was one and its
  \<open>insize\<close> is greater than 0, followed by one \<open>MSG_STOP\<close> per encoder thread; a current
  block with \<open>insize = 0\<close> has been appended to the free queue \<open>gReadQ\<close> instead, which is
  otherwise unchanged. The state \<open>main\<close> starts the reader on is such a state whenever the
  preset's dictionary size is positive. An encoder thread that returns has encoded
  exactly the blocks that were in the encode queue before the first \<open>MSG_STOP\<close>, in
  order, and has passed them to the write queue; when the encode queue holds no empty
  block, each of them has \<open>insize > 0\<close>.
\<close>

theorem empty_block_never_encoded:
  "(reader_inv s \<and> 0 < gBlockInSize s \<and> nonempty_blocks (gEncodeQ s) \<and>
    read_thread CHUNKSIZE script joined s = Inr s' \<longrightarrow>
      nonempty_blocks (gEncodeQ s') \<and>
      (\<exists>s1. read_headers CHUNKSIZE script s = Inr s1 \<and> gReadBlock s' = None \<and>
         (case gReadBlock s1 of
            None \<Rightarrow>
              gEncodeQ s' = gEncodeQ s1 @ replicate (gNumEncodeThreads s1) MSG_STOP \<and>
              gReadQ s' = gReadQ s1
          | Some b \<Rightarrow>
              if 0 < insize b
              then gEncodeQ s' = gEncodeQ s1 @ MSG_BLOCK b #
                                   replicate (gNumEncodeThreads s1) MSG_STOP \<and>
                   gReadQ s' = gReadQ s1
              else gEncodeQ s' = gEncodeQ s1 @ replicate (gNumEncodeThreads s1) MSG_STOP \<and>
                   gReadQ s' = gReadQ s1 @ [MSG_BLOCK b]))) \<and>
   (main_setup L CHUNKSIZE n fin fout = Inr s0 \<and> lzma_lzma_preset L = Some d \<and> 0 < d \<longrightarrow>
    reader_inv s0 \<and> 0 < gBlockInSize s0 \<and> nonempty_blocks (gEncodeQ s0)) \<and>
   (nonempty_blocks (gEncodeQ t) \<and> encode_thread L CHECK t = Inr t' \<longrightarrow>
      (\<exists>bs. gWriteQ t' = gWriteQ t @ map MSG_BLOCK bs \<and>
            map seq bs = map seq (blocks_before_stop (gEncodeQ t)) \<and>
            map insize bs = map insize (blocks_before_stop (gEncodeQ t)) \<and>
            list_all (\<lambda>k. 0 < k) (map insize bs)))"
proof -
  have a: "nonempty_blocks (gEncodeQ s')"
    if ok: "reader_ok s" and run: "read_thread CHUNKSIZE script joined s = Inr s'"
  proof -
    from run obtain s1 where rh: "read_headers CHUNKSIZE script s = Inr s1"
      by (auto simp: read_thread_def split: sum.splits)
    from read_headers_ok[OF ok rh] have "nonempty_blocks (gEncodeQ s1)"
      by (simp add: reader_ok_def)
    then have "nonempty_blocks (gEncodeQ (add_file (gTotalRead s1) None s1))"
      by (simp add: add_file_reader_fields)
    then have "nonempty_blocks (gEncodeQ (flush_last (add_file (gTotalRead s1) None s1)))"
      by (rule flush_last_nonempty)
    then have "nonempty_blocks (stop_encoders (gNumEncodeThreads (flush_last (add_file (gTotalRead s1) None s1)))
        (gEncodeQ (flush_last (add_file (gTotalRead s1) None s1))))"
      by (rule stop_encoders_nonempty)
    then show ?thesis
      using run rh by (auto simp: read_thread_def Let_def split: if_splits)
  qed
  have b: "reader_inv s0 \<and> 0 < gBlockInSize s0 \<and> nonempty_blocks (gEncodeQ s0)"
    if "main_setup L CHUNKSIZE n fin fout = Inr s0" "lzma_lzma_preset L = Some d" "0 < d"
    using main_setup_reader_ok[OF that] by (simp add: reader_ok_def)
  have c: "\<exists>bs. gWriteQ t' = gWriteQ t @ map MSG_BLOCK bs \<and>
            map seq bs = map seq (blocks_before_stop (gEncodeQ t)) \<and>
            map insize bs = map insize (blocks_before_stop (gEncodeQ t)) \<and>
            list_all (\<lambda>k. 0 < k) (map insize bs)"
    if ne: "nonempty_blocks (gEncodeQ t)" and run: "encode_thread L CHECK t = Inr t'"
  proof -
    from encode_thread_blocks[OF run] obtain bs where
      bs: "gWriteQ t' = gWriteQ t @ map MSG_BLOCK bs"
      "map insize bs = map insize (blocks_before_stop (gEncodeQ t))"
      "map seq bs = map seq (blocks_before_stop (gEncodeQ t))"
      by blast
    from nonempty_before_stop[OF ne] bs(2)
    have "list_all (\<lambda>k. 0 < k) (map insize bs)"
      by simp
    with bs show ?thesis
      by blast
  qed
  show ?thesis
    using a b c read_thread_end[of CHUNKSIZE script joined s s']
    by (simp add: reader_ok_def)
qed


theorem empty_block_never_encoded_witness:
  "main_setup store_codec 4 1 example_in example_out = Inr example_start \<and>
   lzma_lzma_preset store_codec = Some 4 \<and>
   reader_inv example_start \<and> 0 < gBlockInSize example_start \<and>
   nonempty_blocks (gEncodeQ example_start) \<and>
   member_run = Inr (projr member_run) \<and>
   queue_summary (gEncodeQ (projr member_run)) = [Some (0, 8), Some (1, 2), None] \<and>
   nonempty_blocks (gEncodeQ (projr member_run)) \<and>
   full_block_run = Inr (projr full_block_run) \<and>
   queue_summary (gEncodeQ (projr full_block_run)) = [Some (0, 8), None] \<and>
   queue_summary (drop 4 (gReadQ (projr full_block_run))) = [Some (1, 0)] \<and>
   nonempty_blocks (gEncodeQ (projr full_block_run)) \<and>
   encode_thread store_codec 1 (projr member_run) =
     Inr (projr (encode_thread store_codec 1 (projr member_run))) \<and>
   queue_summary (gWriteQ (projr (encode_thread store_codec 1 (projr member_run)))) =
     [None, Some (0, 8), Some (1, 2)]"
proof -
  let ?s = "example_start\<lparr>gInFile := \<lparr>f_rest = [1, 2, 3, 4, 5, 6, 7, 8], f_bad = False\<rparr>\<rparr>"
  let ?t = "projr member_run"
  let ?t' = "projr (encode_thread store_codec 1 (projr member_run))"
  have p: "lzma_lzma_preset store_codec = Some 4"
    by (simp add: store_codec_def)
  have z: "0 < (4::nat)"
    by simp
  have m: "reader_inv example_start \<and> 0 < gBlockInSize example_start \<and>
           nonempty_blocks (gEncodeQ example_start) \<and> nonempty_blocks (gEncodeQ ?t)"
    using empty_block_never_encoded[where L = store_codec and CHUNKSIZE = 4 and n = 1
        and fin = example_in and fout = example_out and ?s0.0 = example_start and d = 4
        and s = example_start
        and script = "[Pull, Header 0 (Some ''._a''), Pull, Header 4 (Some ''a''), Pull]"
        and joined = True and s' = ?t and t = ?t and t' = ?t' and CHECK = 1]
      main_setup_example p member_run_read z
    by blast
  have f: "nonempty_blocks (gEncodeQ (projr full_block_run))"
    using empty_block_never_encoded[where L = store_codec and CHUNKSIZE = 4 and n = 1
        and fin = example_in and fout = example_out and ?s0.0 = example_start and d = 4
        and s = ?s and script = "[Pull, Header 0 (Some ''a''), Pull, Pull]"
        and joined = True and s' = "projr full_block_run" and t = ?t and t' = ?t'
        and CHECK = 1]
      full_block_start full_block_run_read
    by simp
  show ?thesis
    using main_setup_example p m f member_run_ok full_block_run_ok member_run_value
      full_block_run_value member_run_encoded
    by simp
qed

text \<open>
  C2 (as the code has it). When \<open>read_thread\<close> has run to the end of the archive from
  an empty file index and with no byte read yet, the last entry of the chain has
  \<open>name = NULL\<close>. The entries before it with \<open>name = NULL\<close> are as many as the headers
  for which libarchive gave no pathname (\<open>archive_entry_pathname\<close> returned \<open>NULL\<close>), so
  the last entry is the only one when every header has a pathname. \<open>gTotalRead\<close> is the
  number of bytes taken from the input file, and the offset of the last entry is
  \<open>gTotalRead\<close>, unless the pathname registered last was a multi-header fragment: then
  it is the offset of the first fragment of that last run.
\<close>

theorem sentinel_entry:
  assumes "gFileIndex s = []" and "gLastFile s = None" and "\<not> gMultiHeader s"
    and "gTotalRead s = 0"
    and "read_thread CHUNKSIZE script joined s = Inr s'"
  shows "\<exists>es. gFileIndex s' =
           es @ [\<lparr>name = None, offset = sentinel_offset (headers script) (gTotalRead s')\<rparr>] \<and>
           length (filter (\<lambda>e. name e = None) es) =
             length (filter (\<lambda>c. snd c = None) (headers script)) \<and>
           gTotalRead s' =
             of_nat (length (f_rest (gInFile s)) - length (f_rest (gInFile s')))"
proof -
  from assms(5) obtain s1 where rh: "read_headers CHUNKSIZE script s = Inr s1"
    by (auto simp: read_thread_def split: sum.splits)
  have ok: "chain_ok s" and p: "pending s = None"
    using assms(1-3) by (simp_all add: chain_ok_def pending_def)
  from read_headers_index[OF ok rh] p
  have s1: "chain_ok s1" "gFileIndex s1 = collapse None (headers script)"
    "pending s1 = remembered None (headers script)"
    using assms(1) by simp_all
  let ?s2 = "add_file (gTotalRead s1) None s1"
  have nf: "\<not> is_fragment (gTotalRead s1, None)"
    by (simp add: is_fragment_def)
  from add_file_member[OF nf s1(1)] s1
  have s2: "gFileIndex ?s2 = collapse None (headers script) @
      [\<lparr>name = None, offset = (case remembered None (headers script) of
                                  None \<Rightarrow> gTotalRead s1 | Some q \<Rightarrow> q)\<rparr>]"
    by simp
  have off: "(case remembered None (headers script) of None \<Rightarrow> gTotalRead s1 | Some q \<Rightarrow> q) =
             sentinel_offset (headers script) (gTotalRead s1)"
    by (simp add: remembered_trailing sentinel_offset_def split: list.splits)
  have fin: "gFileIndex s' = gFileIndex ?s2" "gTotalRead s' = gTotalRead s1"
    "gInFile s' = gInFile s1"
    using assms(5) rh
    by (auto simp: read_thread_def Let_def flush_last_def add_file_reader_fields add_file_input
             split: if_splits option.splits)
  from read_headers_count[OF rh] obtain k where k: "k \<le> length (f_rest (gInFile s))"
    "f_rest (gInFile s1) = drop k (f_rest (gInFile s))" "gTotalRead s1 = gTotalRead s + of_nat k"
    by blast
  have cnt: "gTotalRead s' =
             of_nat (length (f_rest (gInFile s)) - length (f_rest (gInFile s')))"
    using k fin assms(4) by simp
  show ?thesis
    using s2 off fin(1,2) cnt collapse_unnamed[of None "headers script"]
    by (intro exI[of _ "collapse None (headers script)"]) simp
qed


theorem sentinel_entry_witness:
  "gFileIndex example_start = [] \<and> gLastFile example_start = None \<and>
   \<not> gMultiHeader example_start \<and> gTotalRead example_start = 0 \<and>
   member_run = Inr (projr member_run) \<and>
   length (f_rest (gInFile example_start)) = 10 \<and>
   length (f_rest (gInFile (projr member_run))) = 0 \<and>
   gTotalRead (projr member_run) = 10 \<and>
   sentinel_offset (headers [Pull, Header 0 (Some ''._a''), Pull, Header 4 (Some ''a''), Pull])
     10 = 10 \<and>
   gFileIndex (projr member_run) =
     [\<lparr>name = Some ''a'', offset = 0\<rparr>, \<lparr>name = None, offset = 10\<rparr>] \<and>
   null_pathname_run = Inr (projr null_pathname_run) \<and>
   gFileIndex (projr null_pathname_run) =
     [\<lparr>name = None, offset = 0\<rparr>, \<lparr>name = Some ''a'', offset = 4\<rparr>,
      \<lparr>name = None, offset = 10\<rparr>]"
proof -
  have h: "gFileIndex example_start = []" "gLastFile example_start = None"
    "\<not> gMultiHeader example_start" "gTotalRead example_start = 0"
    by (simp_all add: example_start_value)
  have so: "sentinel_offset
      (headers [Pull, Header 0 (Some ''._a''), Pull, Header 4 (Some ''a''), Pull]) 10 = 10"
    by (simp add: sentinel_offset_def trailing_fragments_def is_fragment_def example_names)
  from sentinel_entry[OF h member_run_read]
    sentinel_entry[OF h null_pathname_run_read]
    member_run_value member_run_input null_pathname_run_value so h
    member_run_ok null_pathname_run_ok
  show ?thesis
    by simp
qed

text \<open>C2 as stated fails: after the archive whose only member is \<open>._a\<close>, 10 bytes
  have been read and the only entry, the one with the \<open>NULL\<close> name, has offset 0; and
  after an archive with a header for which the parser has no pathname, two entries have
  the \<open>NULL\<close> name.\<close>

theorem sentinel_offset_counterexample:
  "\<not> isl appledouble_run \<and>
   gFileIndex (projr appledouble_run) = [\<lparr>name = None, offset = 0\<rparr>] \<and>
   gTotalRead (projr appledouble_run) = 10 \<and>
   offset (last (gFileIndex (projr appledouble_run))) \<noteq> gTotalRead (projr appledouble_run) \<and>
   \<not> isl null_pathname_run \<and>
   gFileIndex (projr null_pathname_run) =
     [\<lparr>name = None, offset = 0\<rparr>, \<lparr>name = Some ''a'', offset = 4\<rparr>,
      \<lparr>name = None, offset = 10\<rparr>] \<and>
   length (filter (\<lambda>e. name e = None) (gFileIndex (projr null_pathname_run))) = 2"
  using appledouble_run_value null_pathname_run_value by simp

section \<open>Properties of the writer\<close>

lemma find_seq_Some:
  "find_seq ibs n = Some (ib, rest) \<Longrightarrow> seq ib = n \<and> set ibs = insert ib (set rest)"
  by (induction ibs arbitrary: ib rest) (auto split: if_splits option.splits)

lemma find_seq_None: "find_seq ibs n = None \<Longrightarrow> \<forall>b\<in>set ibs. seq b \<noteq> n"
  by (induction ibs) (auto split: if_splits option.splits)

lemma fwrite_ok:
  "fwrite buf sz f = (1, g) \<Longrightarrow> o_data g = o_data f @ take sz buf"
  by (auto simp: fwrite_def split: if_splits option.splits)

lemma write_blocks_step:
  assumes "find_seq ibs sq = Some (ib, rest)"
    and "write_blocks L ibs sq s = Inr r"
  shows "\<exists>f i. outsize ib \<le> length (output_buf ib) \<and>
           fwrite (output_buf ib) (outsize ib) (gOutFile s) = (1, f) \<and>
           lzma_index_append L (gIndex s) (lzma_block_unpadded_size L (block ib))
             (uncompressed_size (block ib)) = Some i \<and>
           write_blocks L rest (sq + 1)
             (s\<lparr>gOutFile := f, gIndex := i,
                gReadQ := queue_push (gReadQ s) (MSG_BLOCK ib)\<rparr>) = Inr r"
  using assms
  by (cases "fwrite (output_buf ib) (outsize ib) (gOutFile s)")
     (auto split: if_splits option.splits)

lemma write_blocks_spec:
  "write_blocks L ibs sq s = Inr (ibs', sq', s') \<Longrightarrow>
   \<exists>ws. map seq ws = [sq..<sq'] \<and> sq \<le> sq' \<and>
        o_data (gOutFile s') = o_data (gOutFile s) @ concat (map payload ws) \<and>
        gIndex s' = gIndex s @ map (index_pair L) ws \<and>
        gReadQ s' = gReadQ s @ map MSG_BLOCK ws \<and>
        gWriteQ s' = gWriteQ s \<and>
        (\<forall>b\<in>set ibs'. seq b \<noteq> sq') \<and>
        set ibs = set ws \<union> set ibs'"
proof (induction L ibs sq s arbitrary: ibs' sq' s' rule: write_blocks.induct)
  case (1 L ibs sq s)
  show ?case
  proof (cases "find_seq ibs sq")
    case None
    with "1.prems" have "ibs' = ibs" "sq' = sq" "s' = s"
      by simp_all
    with find_seq_None[OF None] show ?thesis
      by (intro exI[of _ "[]"]) simp
  next
    case (Some p)
    obtain ib rest where p: "p = (ib, rest)"
      by (cases p)
    note found = Some[unfolded p]
    from write_blocks_step[OF found "1.prems"] obtain f i where
      fits: "\<not> length (output_buf ib) < outsize ib"
      and fw: "fwrite (output_buf ib) (outsize ib) (gOutFile s) = (1, f)"
      and ia: "lzma_index_append L (gIndex s) (lzma_block_unpadded_size L (block ib))
             (uncompressed_size (block ib)) = Some i"
      and rec: "write_blocks L rest (sq + 1)
             (s\<lparr>gOutFile := f, gIndex := i,
                gReadQ := queue_push (gReadQ s) (MSG_BLOCK ib)\<rparr>) = Inr (ibs', sq', s')"
      by (auto simp: not_less)
    from "1.IH"[OF found refl fits fw[symmetric] _ ia rec]
    obtain ws where ws: "map seq ws = [sq + 1..<sq']" "sq + 1 \<le> sq'"
      "o_data (gOutFile s') = o_data f @ concat (map payload ws)"
      "gIndex s' = i @ map (index_pair L) ws"
      "gReadQ s' = queue_push (gReadQ s) (MSG_BLOCK ib) @ map MSG_BLOCK ws"
      "gWriteQ s' = gWriteQ s"
      "\<forall>b\<in>set ibs'. seq b \<noteq> sq'" "set rest = set ws \<union> set ibs'"
      by auto
    have i: "i = gIndex s @ [index_pair L ib]"
      using ia by (auto simp: lzma_index_append_def index_pair_def split: if_splits)
    have sq: "[sq..<sq'] = sq # [sq + 1..<sq']"
      using ws(2) by (simp add: upt_conv_Cons)
    have pl: "o_data f = o_data (gOutFile s) @ payload ib"
      using fwrite_ok[OF fw] by (simp add: payload_def)
    show ?thesis
      using ws i sq pl find_seq_Some[OF found]
      by (intro exI[of _ "ib # ws"]) (auto simp: queue_push_def)
  qed
qed


lemma writer_loop_spec:
  "writer_loop L ibs sq s = Inr (ibs', sq', s') \<Longrightarrow> \<forall>b\<in>set ibs. seq b \<noteq> sq \<Longrightarrow>
   \<exists>ws. map seq ws = [sq..<sq'] \<and> sq \<le> sq' \<and>
        o_data (gOutFile s') = o_data (gOutFile s) @ concat (map payload ws) \<and>
        gIndex s' = gIndex s @ map (index_pair L) ws \<and>
        gReadQ s' = gReadQ s @ map MSG_BLOCK ws \<and>
        (\<forall>b\<in>set ibs'. seq b \<noteq> sq') \<and>
        set ibs \<union> set (blocks_before_stop (gWriteQ s)) = set ws \<union> set ibs'"
proof (induction L ibs sq s arbitrary: ibs' sq' s' rule: writer_loop.induct)
  case (1 L ibs sq s)
  show ?case
  proof (cases "queue_pop (gWriteQ s)")
    case None
    with "1.prems" show ?thesis
      by simp
  next
    case (Some p)
    obtain m q where p: "p = (m, q)"
      by (cases p)
    note pop = Some[unfolded p]
    show ?thesis
    proof (cases m)
      case MSG_STOP
      with pop "1.prems" have "ibs' = ibs" "sq' = sq" "s' = s\<lparr>gWriteQ := q\<rparr>"
        by simp_all
      with "1.prems"(2) blocks_before_stop_pop(2)[OF pop[unfolded MSG_STOP]] show ?thesis
        by (intro exI[of _ "[]"]) simp
    next
      case (MSG_BLOCK ib)
      note pop' = pop[unfolded MSG_BLOCK]
      from "1.prems"(1) pop' obtain ibs1 sq1 s1 where
        wb: "write_blocks L (ib # ibs) sq (s\<lparr>gWriteQ := q\<rparr>) = Inr (ibs1, sq1, s1)"
        and rec: "writer_loop L ibs1 sq1 s1 = Inr (ibs', sq', s')"
        by (auto split: sum.splits)
      from write_blocks_spec[OF wb] obtain ws1 where ws1:
        "map seq ws1 = [sq..<sq1]" "sq \<le> sq1"
        "o_data (gOutFile s1) = o_data (gOutFile s) @ concat (map payload ws1)"
        "gIndex s1 = gIndex s @ map (index_pair L) ws1"
        "gReadQ s1 = gReadQ s @ map MSG_BLOCK ws1"
        "gWriteQ s1 = q"
        "\<forall>b\<in>set ibs1. seq b \<noteq> sq1" "set (ib # ibs) = set ws1 \<union> set ibs1"
        by auto
      from "1.IH"[OF pop refl MSG_BLOCK wb refl refl rec ws1(7)] obtain ws2 where ws2:
        "map seq ws2 = [sq1..<sq']" "sq1 \<le> sq'"
        "o_data (gOutFile s') = o_data (gOutFile s1) @ concat (map payload ws2)"
        "gIndex s' = gIndex s1 @ map (index_pair L) ws2"
        "gReadQ s' = gReadQ s1 @ map MSG_BLOCK ws2"
        "\<forall>b\<in>set ibs'. seq b \<noteq> sq'"
        "set ibs1 \<union> set (blocks_before_stop (gWriteQ s1)) = set ws2 \<union> set ibs'"
        by auto
      have up: "[sq..<sq'] = [sq..<sq1] @ [sq1..<sq']"
        using ws1(2) ws2(2) by (metis le_Suc_ex upt_add_eq_append)
      have sets: "set ibs \<union> set (blocks_before_stop (gWriteQ s)) =
                  set (ws1 @ ws2) \<union> set ibs'"
        using ws1(8) ws2(7) ws1(6) blocks_before_stop_pop(1)[OF pop'] by auto
      show ?thesis
        using ws1 ws2 up sets
        by (intro exI[of _ "ws1 @ ws2"]) simp
    qed
  qed
qed


lemma writer_start_run:
  "writer_loop store_codec [] 0 writer_start =
     Inr ([], 3, snd (snd (projr (writer_loop store_codec [] 0 writer_start)))) \<and>
   o_data (gOutFile (snd (snd (projr (writer_loop store_codec [] 0 writer_start))))) =
     [10, 10, 11, 12] \<and>
   gIndex (snd (snd (projr (writer_loop store_codec [] 0 writer_start)))) =
     [(18, 8), (17, 8), (17, 8)]"
  by (simp add: writer_start_def example_start_value enc_block_def example_block_def
      queue_pop_def queue_push_def fwrite_def example_out_def lzma_index_append_def
      store_codec_def)

text \<open>
  C3. Every call of \<open>write_blocks\<close> that returns has appended to the output file the
  data of the blocks with the sequence numbers from \<open>*seq\<close> before the call up to,
  but not including, \<open>*seq\<close> after it, in that order and with nothing else, and has
  appended their \<open>(unpadded_size, uncompressed_size)\<close> pairs to the stream-level index
  in the same order; no block left in the pending list has the next sequence number,
  and the blocks written and the blocks left are the blocks that were pending. For the
  whole loop of \<open>main\<close>, whatever the order in which the blocks arrive on the write
  queue: when it leaves at \<open>MSG_STOP\<close>, the blocks written are those with the sequence
  numbers 0, 1, ... in ascending order without a gap, the index has their pairs in the
  same order, and written and pending blocks together are the blocks that arrived.
\<close>

theorem writer_in_seq_order:
  "(write_blocks L ibs sq s = Inr (ibs', sq', s') \<longrightarrow>
     (\<exists>ws. map seq ws = [sq..<sq'] \<and>
        o_data (gOutFile s') = o_data (gOutFile s) @ concat (map payload ws) \<and>
        gIndex s' = gIndex s @ map (index_pair L) ws \<and>
        (\<forall>b\<in>set ibs'. seq b \<noteq> sq') \<and>
        set ibs = set ws \<union> set ibs')) \<and>
   (writer_loop L [] 0 t = Inr (pend, nxt, t') \<longrightarrow>
     (\<exists>ws. map seq ws = [0..<nxt] \<and>
        o_data (gOutFile t') = o_data (gOutFile t) @ concat (map payload ws) \<and>
        gIndex t' = gIndex t @ map (index_pair L) ws \<and>
        (\<forall>b\<in>set pend. seq b \<noteq> nxt) \<and>
        set (blocks_before_stop (gWriteQ t)) = set ws \<union> set pend))"
proof -
  have a: "\<exists>ws. map seq ws = [sq..<sq'] \<and>
        o_data (gOutFile s') = o_data (gOutFile s) @ concat (map payload ws) \<and>
        gIndex s' = gIndex s @ map (index_pair L) ws \<and>
        (\<forall>b\<in>set ibs'. seq b \<noteq> sq') \<and>
        set ibs = set ws \<union> set ibs'"
    if "write_blocks L ibs sq s = Inr (ibs', sq', s')"
    using write_blocks_spec[OF that] by blast
  have b: "\<exists>ws. map seq ws = [0..<nxt] \<and>
        o_data (gOutFile t') = o_data (gOutFile t) @ concat (map payload ws) \<and>
        gIndex t' = gIndex t @ map (index_pair L) ws \<and>
        (\<forall>b\<in>set pend. seq b \<noteq> nxt) \<and>
        set (blocks_before_stop (gWriteQ t)) = set ws \<union> set pend"
    if "writer_loop L [] 0 t = Inr (pend, nxt, t')"
    using writer_loop_spec[OF that] by auto
  show ?thesis
    using a b by blast
qed


theorem writer_in_seq_order_witness:
  "writer_loop store_codec [] 0 writer_start =
     Inr ([], 3, snd (snd (projr (writer_loop store_codec [] 0 writer_start)))) \<and>
   map seq (blocks_before_stop (gWriteQ writer_start)) = [1, 0, 2] \<and>
   o_data (gOutFile (snd (snd (projr (writer_loop store_codec [] 0 writer_start))))) =
     [10, 10, 11, 12] \<and>
   gIndex (snd (snd (projr (writer_loop store_codec [] 0 writer_start)))) =
     [(18, 8), (17, 8), (17, 8)] \<and>
   (\<exists>ws. map seq ws = [0..<3] \<and> concat (map payload ws) = [10, 10, 11, 12])"
proof -
  let ?t' = "snd (snd (projr (writer_loop store_codec [] 0 writer_start)))"
  have arr: "map seq (blocks_before_stop (gWriteQ writer_start)) = [1, 0, 2]"
    by (simp add: writer_start_def enc_block_def)
  have out0: "o_data (gOutFile writer_start) = []"
    by (simp add: writer_start_def example_start_value example_out_def)
  from writer_in_seq_order[where L = store_codec and t = writer_start and pend = "[]"
      and nxt = 3 and t' = ?t' and ibs = "[]" and sq = 0 and s = writer_start
      and ibs' = "[]" and sq' = 0 and s' = writer_start] writer_start_run
  obtain ws where "map seq ws = [0..<3]"
    "o_data (gOutFile ?t') = o_data (gOutFile writer_start) @ concat (map payload ws)"
    by blast
  then have "\<exists>ws. map seq ws = [0..<3] \<and> concat (map payload ws) = [10, 10, 11, 12]"
    using writer_start_run out0 by auto
  then show ?thesis
    using writer_start_run arr by simp
qed

section \<open>Properties of the file-index block\<close>

lemma encode_loop_delivers:
  "codec_ok L \<Longrightarrow> encode_loop L CHUNKSIZE action fuel err s = Some (Inr s') \<Longrightarrow>
   (err = LZMA_STREAM_END \<longrightarrow> next_in (gStream s) = []) \<Longrightarrow>
   consumed (gStream s') = consumed (gStream s) @ next_in (gStream s) \<and>
   same_but_stream s s'"
proof (induction fuel arbitrary: err s)
  case 0
  then show ?case
    by (auto simp: same_but_stream_def split: if_splits)
next
  case (Suc fuel)
  show ?case
  proof (cases "err \<noteq> LZMA_STREAM_END \<and> (action = LZMA_FINISH \<or> next_in (gStream s) \<noteq> [])")
    case False
    with Suc.prems show ?thesis
      by (auto simp: same_but_stream_def)
  next
    case True
    from True Suc.prems(2) obtain e where e: "coder (gStream s) = Some e"
      by (auto split: option.splits)
    obtain err' n out e' where code:
      "lzma_code L e action (next_in (gStream s)) CHUNKSIZE = (err', n, out, e')"
      by (cases "lzma_code L e action (next_in (gStream s)) CHUNKSIZE")
    define n' where "n' = min n (length (next_in (gStream s)))"
    define s1 where "s1 = s\<lparr>gStream := (gStream s)\<lparr>coder := Some e',
                                  next_in := drop n' (next_in (gStream s)),
                                  consumed := consumed (gStream s) @
                                              take n' (next_in (gStream s))\<rparr>\<rparr>"
    have "fst (lzma_code L e action (next_in (gStream s)) CHUNKSIZE) = LZMA_STREAM_END \<longrightarrow>
          length (next_in (gStream s)) \<le>
          fst (snd (lzma_code L e action (next_in (gStream s)) CHUNKSIZE))"
      using Suc.prems(1) unfolding codec_ok_def by blast
    then have end': "err' = LZMA_STREAM_END \<longrightarrow> next_in (gStream s1) = []"
      using code by (simp add: s1_def n'_def)
    from True Suc.prems(2) e code obtain s2 where
      rec: "encode_loop L CHUNKSIZE action fuel err' s2 = Some (Inr s')"
      and s2: "s2 = s1 \<or> (\<exists>f. s2 = s1\<lparr>gOutFile := f\<rparr>)"
      by (auto simp: Let_def s1_def n'_def split: if_splits prod.splits)
    have end2: "err' = LZMA_STREAM_END \<longrightarrow> next_in (gStream s2) = []"
      using end' s2 by auto
    from Suc.IH[OF Suc.prems(1) rec end2]
    have "consumed (gStream s') = consumed (gStream s2) @ next_in (gStream s2)"
      "same_but_stream s2 s'"
      by simp_all
    moreover have "consumed (gStream s2) @ next_in (gStream s2) =
                   consumed (gStream s) @ next_in (gStream s)"
      "same_but_stream s s2"
      using s2 by (auto simp: s1_def same_but_stream_def)
    ultimately show ?thesis
      by (simp add: same_but_stream_def)
  qed
qed

lemma encode_loop_no_crash:
  "encode_loop L CHUNKSIZE action fuel err s \<noteq> Some (Inl Crash)"
proof (induction fuel arbitrary: err s)
  case 0
  show ?case by simp
next
  case (Suc fuel)
  show ?case
    using Suc[of _ _]
    by (auto simp: Let_def split: option.splits prod.splits if_splits)
qed

lemma write_file_index_buf_delivers:
  assumes "codec_ok L" and "write_file_index_buf L CHUNKSIZE fuel action s = Some (Inr s')"
  shows "consumed (gStream s') = consumed (gStream s) @ buffered s \<and>
         gFileIndexBufPos s' = 0 \<and> gFileIndexBuf s' = gFileIndexBuf s \<and>
         gFileIndex s' = gFileIndex s \<and> gIndex s' = gIndex s \<and>
         gBlockInSize s' = gBlockInSize s \<and> gBlockOutSize s' = gBlockOutSize s"
proof -
  let ?s1 = "s\<lparr>gStream := (gStream s)
                    \<lparr>next_in := take (gFileIndexBufPos s) (gFileIndexBuf s)\<rparr>\<rparr>"
  from assms(2) obtain s2 where
    loop: "encode_loop L CHUNKSIZE action fuel LZMA_OK ?s1 = Some (Inr s2)"
    and s': "s' = s2\<lparr>gFileIndexBufPos := 0\<rparr>"
    by (auto simp: write_file_index_buf_def Let_def split: option.splits sum.splits)
  from encode_loop_delivers[OF assms(1) loop] show ?thesis
    by (simp add: s' same_but_stream_def buffered_def)
qed

lemma write_file_index_buf_no_crash:
  "write_file_index_buf L CHUNKSIZE fuel action s \<noteq> Some (Inl Crash)"
  using encode_loop_no_crash[of L CHUNKSIZE action fuel LZMA_OK]
  by (auto simp: write_file_index_buf_def Let_def split: option.splits sum.splits)

declare write_file_index_bytes_from.simps [simp del]

lemma size_sub_le: "b \<le> a \<Longrightarrow> size_sub a b = a - b"
  by (simp add: size_sub_def)

lemma write_file_index_bytes_from_step:
  assumes inv: "length (gFileIndexBuf s) = CHUNKSIZE" "gFileIndexBufPos s < CHUNKSIZE"
    and more: "bufpos < length data"
  shows "\<exists>len chunk s1.
     0 < len \<and> bufpos + len \<le> length data \<and> gFileIndexBufPos s + len \<le> CHUNKSIZE \<and>
     chunk @ drop (bufpos + len) data = drop bufpos data \<and>
     length (gFileIndexBuf s1) = CHUNKSIZE \<and>
     gFileIndexBufPos s1 = gFileIndexBufPos s + len \<and>
     buffered s1 = buffered s @ chunk \<and>
     gStream s1 = gStream s \<and> gOutFile s1 = gOutFile s \<and>
     gFileIndex s1 = gFileIndex s \<and> gIndex s1 = gIndex s \<and>
     gBlockInSize s1 = gBlockInSize s \<and> gBlockOutSize s1 = gBlockOutSize s \<and>
     write_file_index_bytes_from L CHUNKSIZE fuel data bufpos s =
        (if gFileIndexBufPos s1 = CHUNKSIZE
         then (case write_file_index_buf L CHUNKSIZE fuel LZMA_RUN s1 of
                 None \<Rightarrow> None
               | Some (Inl e) \<Rightarrow> Some (Inl e)
               | Some (Inr s2) \<Rightarrow>
                   write_file_index_bytes_from L CHUNKSIZE fuel data
                     (bufpos + len) (s2\<lparr>gFileIndexBufPos := 0\<rparr>))
         else write_file_index_bytes_from L CHUNKSIZE fuel data (bufpos + len) s1)"
proof -
  define len where "len = min (length data - bufpos) (CHUNKSIZE - gFileIndexBufPos s)"
  define chunk where "chunk = take len (drop bufpos data)"
  define buf where "buf = take (gFileIndexBufPos s) (gFileIndexBuf s) @ chunk @
                          drop (gFileIndexBufPos s + length chunk) (gFileIndexBuf s)"
  define s1 where "s1 = s\<lparr>gFileIndexBuf := buf,
                           gFileIndexBufPos := gFileIndexBufPos s + len\<rparr>"
  have len: "0 < len" "gFileIndexBufPos s + len \<le> CHUNKSIZE" "bufpos + len \<le> length data"
    using more inv by (simp_all add: len_def)
  have lchunk: "length chunk = len"
    using len by (simp add: chunk_def)
  have lenexp: "(if length data - bufpos > size_sub CHUNKSIZE (gFileIndexBufPos s)
                 then size_sub CHUNKSIZE (gFileIndexBufPos s)
                 else length data - bufpos) = len"
    using inv by (auto simp: size_sub_le len_def)
  have bw: "buf_write (gFileIndexBuf s) (gFileIndexBufPos s) chunk = Some buf"
    using len inv lchunk by (simp add: buf_write_def buf_def)
  have unfold: "write_file_index_bytes_from L CHUNKSIZE fuel data bufpos s =
      (if gFileIndexBufPos s1 = CHUNKSIZE
       then (case write_file_index_buf L CHUNKSIZE fuel LZMA_RUN s1 of
               None \<Rightarrow> None
             | Some (Inl e) \<Rightarrow> Some (Inl e)
             | Some (Inr s2) \<Rightarrow>
                 write_file_index_bytes_from L CHUNKSIZE fuel data
                   (bufpos + len) (s2\<lparr>gFileIndexBufPos := 0\<rparr>))
       else write_file_index_bytes_from L CHUNKSIZE fuel data (bufpos + len) s1)"
    using more inv len lenexp bw
    by (subst write_file_index_bytes_from.simps)
       (simp add: Let_def chunk_def[symmetric] s1_def split del: if_split
             cong: if_cong option.case_cong sum.case_cong)
  have lbuf: "length (gFileIndexBuf s1) = CHUNKSIZE"
    using len inv lchunk by (simp add: buf_def s1_def)
  have b1: "buffered s1 = buffered s @ chunk"
    using len inv lchunk by (simp add: buffered_def s1_def buf_def)
  have dr: "chunk @ drop (bufpos + len) data = drop bufpos data"
  proof -
    have "drop (bufpos + len) data = drop len (drop bufpos data)"
      by (simp add: add.commute)
    then show ?thesis
      by (simp only: chunk_def append_take_drop_id)
  qed
  have fr: "gFileIndexBufPos s1 = gFileIndexBufPos s + len"
    "gStream s1 = gStream s" "gOutFile s1 = gOutFile s"
    "gFileIndex s1 = gFileIndex s" "gIndex s1 = gIndex s"
    "gBlockInSize s1 = gBlockInSize s" "gBlockOutSize s1 = gBlockOutSize s"
    by (simp_all add: s1_def)
  show ?thesis
    using len dr lbuf b1 fr unfold by blast
qed

lemma write_file_index_bytes_from_delivers:
  assumes ok: "codec_ok L"
  shows "length (gFileIndexBuf s) = CHUNKSIZE \<Longrightarrow> gFileIndexBufPos s < CHUNKSIZE \<Longrightarrow>
     bufpos \<le> length data \<Longrightarrow>
     write_file_index_bytes_from L CHUNKSIZE fuel data bufpos s \<noteq> Some (Inl Crash) \<and>
     (\<forall>s'. write_file_index_bytes_from L CHUNKSIZE fuel data bufpos s = Some (Inr s') \<longrightarrow>
        consumed (gStream s') @ buffered s' =
          consumed (gStream s) @ buffered s @ drop bufpos data \<and>
        length (gFileIndexBuf s') = CHUNKSIZE \<and> gFileIndexBufPos s' < CHUNKSIZE \<and>
        gFileIndex s' = gFileIndex s \<and> gIndex s' = gIndex s \<and>
        gBlockInSize s' = gBlockInSize s \<and> gBlockOutSize s' = gBlockOutSize s)"
proof (induction "length data - bufpos" arbitrary: bufpos s rule: less_induct)
  case less
  note inv = less.prems
  show ?case
  proof (cases "bufpos < length data")
    case False
    with inv show ?thesis
      by (simp add: write_file_index_bytes_from.simps)
  next
    case True
    from write_file_index_bytes_from_step[OF inv(1,2) True, of L fuel]
    obtain len chunk s1 where len: "0 < len" "bufpos + len \<le> length data"
        "gFileIndexBufPos s + len \<le> CHUNKSIZE"
      and dr: "chunk @ drop (bufpos + len) data = drop bufpos data"
      and lbuf: "length (gFileIndexBuf s1) = CHUNKSIZE"
      and pos1: "gFileIndexBufPos s1 = gFileIndexBufPos s + len"
      and b1: "buffered s1 = buffered s @ chunk"
      and st1: "gStream s1 = gStream s"
      and fr: "gFileIndex s1 = gFileIndex s" "gIndex s1 = gIndex s"
        "gBlockInSize s1 = gBlockInSize s" "gBlockOutSize s1 = gBlockOutSize s"
      and unfold: "write_file_index_bytes_from L CHUNKSIZE fuel data bufpos s =
        (if gFileIndexBufPos s1 = CHUNKSIZE
         then (case write_file_index_buf L CHUNKSIZE fuel LZMA_RUN s1 of
                 None \<Rightarrow> None
               | Some (Inl e) \<Rightarrow> Some (Inl e)
               | Some (Inr s2) \<Rightarrow>
                   write_file_index_bytes_from L CHUNKSIZE fuel data
                     (bufpos + len) (s2\<lparr>gFileIndexBufPos := 0\<rparr>))
         else write_file_index_bytes_from L CHUNKSIZE fuel data (bufpos + len) s1)"
      by blast
    have meas: "length data - (bufpos + len) < length data - bufpos"
      using len True by simp
    show ?thesis
    proof (cases "gFileIndexBufPos s1 = CHUNKSIZE")
      case False
      then have lt: "gFileIndexBufPos s1 < CHUNKSIZE"
        using len pos1 by simp
      have eq: "consumed (gStream s1) @ buffered s1 @ drop (bufpos + len) data =
                consumed (gStream s) @ buffered s @ drop bufpos data"
        unfolding b1 st1 using dr by simp
      have un: "write_file_index_bytes_from L CHUNKSIZE fuel data bufpos s =
                write_file_index_bytes_from L CHUNKSIZE fuel data (bufpos + len) s1"
        unfolding unfold using False by simp
      from less.hyps[OF meas lbuf lt len(2)]
      show ?thesis
        unfolding un eq[symmetric] fr[symmetric] .
    next
      case full: True
      show ?thesis
      proof (cases "write_file_index_buf L CHUNKSIZE fuel LZMA_RUN s1")
        case None
        with full show ?thesis
          unfolding unfold by simp
      next
        case (Some r)
        show ?thesis
        proof (cases r)
          case (Inl e)
          with Some full write_file_index_buf_no_crash[of L CHUNKSIZE fuel LZMA_RUN s1]
          show ?thesis
            unfolding unfold by simp
        next
          case (Inr s2)
          note fl = write_file_index_buf_delivers[OF ok Some[unfolded Inr]]
          let ?s3 = "s2\<lparr>gFileIndexBufPos := 0\<rparr>"
          have l3: "length (gFileIndexBuf ?s3) = CHUNKSIZE"
            using fl lbuf by simp
          have p3: "gFileIndexBufPos ?s3 < CHUNKSIZE"
            using inv by simp
          have c3: "consumed (gStream ?s3) @ buffered ?s3 =
                    consumed (gStream s) @ buffered s @ chunk"
            using fl b1 st1 by (simp add: buffered_def)
          have eq: "consumed (gStream ?s3) @ buffered ?s3 @ drop (bufpos + len) data =
                    consumed (gStream s) @ buffered s @ drop bufpos data"
          proof -
            have "consumed (gStream ?s3) @ buffered ?s3 @ drop (bufpos + len) data =
                  (consumed (gStream ?s3) @ buffered ?s3) @ drop (bufpos + len) data"
              by simp
            also have "\<dots> = (consumed (gStream s) @ buffered s @ chunk) @ drop (bufpos + len) data"
              unfolding c3 ..
            also have "\<dots> = consumed (gStream s) @ buffered s @ drop bufpos data"
              using dr by simp
            finally show ?thesis .
          qed
          have fr3: "gFileIndex ?s3 = gFileIndex s" "gIndex ?s3 = gIndex s"
            "gBlockInSize ?s3 = gBlockInSize s" "gBlockOutSize ?s3 = gBlockOutSize s"
            using fl fr by simp_all
          have un: "write_file_index_bytes_from L CHUNKSIZE fuel data bufpos s =
                    write_file_index_bytes_from L CHUNKSIZE fuel data (bufpos + len) ?s3"
            unfolding unfold using full Some Inr by simp
          from less.hyps[OF meas l3 p3 len(2)]
          show ?thesis
            unfolding un eq[symmetric] fr3[symmetric] .
        qed
      qed
    qed
  qed
qed

lemma write_file_index_bytes_delivers:
  assumes "codec_ok L" and "stream_ok CHUNKSIZE s"
  shows "write_file_index_bytes L CHUNKSIZE fuel data s \<noteq> Some (Inl Crash)"
    and "write_file_index_bytes L CHUNKSIZE fuel data s = Some (Inr s') \<Longrightarrow>
         consumed (gStream s') @ buffered s' = consumed (gStream s) @ buffered s @ data \<and>
         stream_ok CHUNKSIZE s' \<and> unchanged s s'"
  using write_file_index_bytes_from_delivers[OF assms(1), of s CHUNKSIZE 0 data fuel] assms(2)
  by (simp_all add: write_file_index_bytes_def stream_ok_def unchanged_def)

lemma write_arrays_delivers:
  assumes ok: "codec_ok L"
  shows "stream_ok CHUNKSIZE s \<Longrightarrow>
     write_arrays L CHUNKSIZE fuel arrays s \<noteq> Some (Inl Crash) \<and>
     (\<forall>s'. write_arrays L CHUNKSIZE fuel arrays s = Some (Inr s') \<longrightarrow>
        consumed (gStream s') @ buffered s' =
          consumed (gStream s) @ buffered s @ concat arrays \<and>
        stream_ok CHUNKSIZE s' \<and> unchanged s s')"
proof (induction arrays arbitrary: s)
  case Nil
  then show ?case
    by (simp add: unchanged_def)
next
  case (Cons d ds)
  note wb = write_file_index_bytes_delivers[OF ok Cons.prems]
  show ?case
  proof (cases "write_file_index_bytes L CHUNKSIZE fuel d s")
    case None
    then show ?thesis by simp
  next
    case (Some r)
    show ?thesis
    proof (cases r)
      case (Inl e)
      with Some wb(1)[of fuel d] show ?thesis by simp
    next
      case (Inr s1)
      from wb(2)[OF Some[unfolded Inr]]
      have s1: "consumed (gStream s1) @ buffered s1 = consumed (gStream s) @ buffered s @ d"
        "stream_ok CHUNKSIZE s1" "unchanged s s1"
        by simp_all
      have un: "write_arrays L CHUNKSIZE fuel (d # ds) s = write_arrays L CHUNKSIZE fuel ds s1"
        using Some Inr by simp
      have nc: "write_arrays L CHUNKSIZE fuel ds s1 \<noteq> Some (Inl Crash)"
        using Cons.IH[OF s1(2)] by blast
      have step: "consumed (gStream s') @ buffered s' =
          consumed (gStream s) @ buffered s @ concat (d # ds) \<and>
          stream_ok CHUNKSIZE s' \<and> unchanged s s'"
        if "write_arrays L CHUNKSIZE fuel ds s1 = Some (Inr s')" for s'
      proof -
        from Cons.IH[OF s1(2)] that
        have a: "consumed (gStream s') @ buffered s' =
                 consumed (gStream s1) @ buffered s1 @ concat ds"
          and b: "stream_ok CHUNKSIZE s'" "unchanged s1 s'"
          by blast+
        have "consumed (gStream s1) @ buffered s1 @ concat ds =
              (consumed (gStream s1) @ buffered s1) @ concat ds"
          by simp
        also have "\<dots> = consumed (gStream s) @ buffered s @ concat (d # ds)"
          unfolding s1(1) by simp
        finally show ?thesis
          using a b s1(3) by (simp add: unchanged_def)
      qed
      show ?thesis
        unfolding un using nc step by blast
    qed
  qed
qed

lemma fwrite_unlimited:
  "o_room f = None \<Longrightarrow> 0 < sz \<Longrightarrow>
   fst (fwrite buf sz f) = 1 \<and> o_room (snd (fwrite buf sz f)) = None"
  by (simp add: fwrite_def)

lemma encode_loop_total:
  assumes pr: "codec_progress L" and chunk: "0 < CHUNKSIZE"
  shows "sink_ok s \<Longrightarrow>
     err = LZMA_STREAM_END \<or>
       length (next_in (gStream s)) + (if action = LZMA_FINISH then 1 else 0) \<le> fuel \<Longrightarrow>
     \<exists>s'. encode_loop L CHUNKSIZE action fuel err s = Some (Inr s') \<and> sink_ok s'"
proof (induction fuel arbitrary: err s)
  case 0
  then show ?case
    by (auto split: if_splits)
next
  case (Suc fuel)
  show ?case
  proof (cases "err \<noteq> LZMA_STREAM_END \<and> (action = LZMA_FINISH \<or> next_in (gStream s) \<noteq> [])")
    case False
    then show ?thesis
      using Suc.prems(1) by auto
  next
    case True
    from Suc.prems(1) obtain e where e: "coder (gStream s) = Some e"
      by (auto simp: sink_ok_def)
    obtain err' n out e' where code:
      "lzma_code L e action (next_in (gStream s)) CHUNKSIZE = (err', n, out, e')"
      by (cases "lzma_code L e action (next_in (gStream s)) CHUNKSIZE")
    define n' where "n' = min n (length (next_in (gStream s)))"
    define s1 where "s1 = s\<lparr>gStream := (gStream s)\<lparr>coder := Some e',
                                  next_in := drop n' (next_in (gStream s)),
                                  consumed := consumed (gStream s) @
                                              take n' (next_in (gStream s))\<rparr>\<rparr>"
    define s2 where "s2 = (if take CHUNKSIZE out \<noteq> []
        then s1\<lparr>gOutFile := snd (fwrite (take CHUNKSIZE out) (length (take CHUNKSIZE out))
                                     (gOutFile s1))\<rparr>
        else s1)"
    have prog: "fst (lzma_code L e action (next_in (gStream s)) CHUNKSIZE) \<noteq> LZMA_ERROR \<and>
        (next_in (gStream s) \<noteq> [] \<longrightarrow>
           0 < fst (snd (lzma_code L e action (next_in (gStream s)) CHUNKSIZE))) \<and>
        (next_in (gStream s) = [] \<and> action = LZMA_FINISH \<longrightarrow>
           fst (lzma_code L e action (next_in (gStream s)) CHUNKSIZE) = LZMA_STREAM_END)"
      using pr chunk unfolding codec_progress_def by blast
    have err': "err' = LZMA_OK \<or> err' = LZMA_STREAM_END"
      using prog code by (cases err') simp_all
    have room: "o_room (gOutFile s1) = None"
      using Suc.prems(1) by (simp add: sink_ok_def s1_def)
    have fw: "take CHUNKSIZE out \<noteq> [] \<Longrightarrow>
        fst (fwrite (take CHUNKSIZE out) (length (take CHUNKSIZE out)) (gOutFile s1)) = 1 \<and>
        o_room (snd (fwrite (take CHUNKSIZE out) (length (take CHUNKSIZE out))
                       (gOutFile s1))) = None"
      using fwrite_unlimited[OF room] by simp
    have un: "encode_loop L CHUNKSIZE action (Suc fuel) err s =
              encode_loop L CHUNKSIZE action fuel err' s2"
      using True e code err' fw
      by (auto simp: Let_def s2_def s1_def n'_def split: prod.splits)
    have sink2: "sink_ok s2"
      using fw room by (auto simp: sink_ok_def s2_def s1_def)
    have nx: "next_in (gStream s2) = drop n' (next_in (gStream s))"
      by (simp add: s2_def s1_def)
    have bound: "err' = LZMA_STREAM_END \<or>
       length (next_in (gStream s2)) + (if action = LZMA_FINISH then 1 else 0) \<le> fuel"
    proof (cases "next_in (gStream s) = []")
      case True
      with \<open>err \<noteq> LZMA_STREAM_END \<and> (action = LZMA_FINISH \<or> next_in (gStream s) \<noteq> [])\<close>
      have "action = LZMA_FINISH" by simp
      with True prog code show ?thesis by simp
    next
      case False
      then have "0 < n'"
        using prog code by (simp add: n'_def)
      moreover have "length (next_in (gStream s)) + (if action = LZMA_FINISH then 1 else 0)
                     \<le> Suc fuel"
        using Suc.prems(2) True by simp
      moreover have "0 < length (next_in (gStream s))"
        using False by simp
      ultimately have lt: "length (drop n' (next_in (gStream s))) < length (next_in (gStream s))"
        and le: "length (next_in (gStream s)) + (if action = LZMA_FINISH then 1 else 0)
                     \<le> Suc fuel"
        by simp_all
      show ?thesis
      proof (cases "action = LZMA_FINISH")
        case True
        with le have "length (next_in (gStream s)) \<le> fuel"
          by simp
        with lt have "length (drop n' (next_in (gStream s))) + 1 \<le> fuel"
          by linarith
        with True show ?thesis
          unfolding nx by simp
      next
        case False
        with lt le have "length (drop n' (next_in (gStream s))) \<le> fuel"
          by simp
        with False show ?thesis
          unfolding nx by simp
      qed
    qed
    from Suc.IH[OF sink2 bound] show ?thesis
      unfolding un .
  qed
qed

lemma encode_loop_frame:
  "encode_loop L CHUNKSIZE action fuel err s = Some (Inr s') \<Longrightarrow> same_but_stream s s'"
proof (induction fuel arbitrary: err s)
  case 0
  then show ?case
    by (auto simp: same_but_stream_def split: if_splits)
next
  case (Suc fuel)
  show ?case
  proof (cases "err \<noteq> LZMA_STREAM_END \<and> (action = LZMA_FINISH \<or> next_in (gStream s) \<noteq> [])")
    case False
    with Suc.prems show ?thesis
      by (auto simp: same_but_stream_def)
  next
    case True
    from True Suc.prems obtain err' s2 where
      rec: "encode_loop L CHUNKSIZE action fuel err' s2 = Some (Inr s')"
      and s2: "same_but_stream s s2"
      by (auto simp: Let_def same_but_stream_def split: if_splits prod.splits option.splits)
    from Suc.IH[OF rec] s2 show ?thesis
      by (simp add: same_but_stream_def)
  qed
qed

lemma write_file_index_buf_frame:
  assumes "write_file_index_buf L CHUNKSIZE fuel action s = Some (Inr s')"
  shows "gFileIndexBuf s' = gFileIndexBuf s \<and> gFileIndex s' = gFileIndex s \<and>
         gIndex s' = gIndex s \<and> gBlockInSize s' = gBlockInSize s \<and>
         gBlockOutSize s' = gBlockOutSize s"
proof -
  let ?s1 = "s\<lparr>gStream := (gStream s)
                    \<lparr>next_in := take (gFileIndexBufPos s) (gFileIndexBuf s)\<rparr>\<rparr>"
  from assms obtain s2 where
    loop: "encode_loop L CHUNKSIZE action fuel LZMA_OK ?s1 = Some (Inr s2)"
    and s': "s' = s2\<lparr>gFileIndexBufPos := 0\<rparr>"
    by (auto simp: write_file_index_buf_def Let_def split: option.splits sum.splits)
  from encode_loop_frame[OF loop] show ?thesis
    by (simp add: s' same_but_stream_def)
qed

lemma write_file_index_buf_total:
  assumes "codec_progress L" and "sink_ok s" and "gFileIndexBufPos s < fuel"
    and "0 < CHUNKSIZE"
  shows "\<exists>s'. write_file_index_buf L CHUNKSIZE fuel action s = Some (Inr s') \<and> sink_ok s'"
proof -
  let ?s1 = "s\<lparr>gStream := (gStream s)
                    \<lparr>next_in := take (gFileIndexBufPos s) (gFileIndexBuf s)\<rparr>\<rparr>"
  have "sink_ok ?s1"
    using assms(2) by (simp add: sink_ok_def)
  moreover have "length (next_in (gStream ?s1)) + (if action = LZMA_FINISH then 1 else 0) \<le> fuel"
    using assms(3) by (auto simp: min_def)
  ultimately obtain s2 where "encode_loop L CHUNKSIZE action fuel LZMA_OK ?s1 = Some (Inr s2)"
    "sink_ok s2"
    using encode_loop_total[OF assms(1) assms(4), of ?s1 LZMA_OK action fuel] by blast
  then show ?thesis
    by (simp add: write_file_index_buf_def Let_def sink_ok_def)
qed

lemma write_file_index_bytes_from_total:
  assumes pr: "codec_progress L" and fuel: "CHUNKSIZE < fuel"
  shows "length (gFileIndexBuf s) = CHUNKSIZE \<Longrightarrow> gFileIndexBufPos s < CHUNKSIZE \<Longrightarrow>
     sink_ok s \<Longrightarrow>
     \<exists>s'. write_file_index_bytes_from L CHUNKSIZE fuel data bufpos s = Some (Inr s') \<and>
          length (gFileIndexBuf s') = CHUNKSIZE \<and> gFileIndexBufPos s' < CHUNKSIZE \<and>
          sink_ok s'"
proof (induction "length data - bufpos" arbitrary: bufpos s rule: less_induct)
  case less
  note inv = less.prems
  show ?case
  proof (cases "bufpos < length data")
    case False
    with inv show ?thesis
      by (simp add: write_file_index_bytes_from.simps)
  next
    case True
    from write_file_index_bytes_from_step[OF inv(1,2) True, of L fuel]
    obtain len chunk s1 where len: "0 < len" "bufpos + len \<le> length data"
        "gFileIndexBufPos s + len \<le> CHUNKSIZE"
      and lbuf: "length (gFileIndexBuf s1) = CHUNKSIZE"
      and pos1: "gFileIndexBufPos s1 = gFileIndexBufPos s + len"
      and st1: "gStream s1 = gStream s" "gOutFile s1 = gOutFile s"
      and unfold: "write_file_index_bytes_from L CHUNKSIZE fuel data bufpos s =
        (if gFileIndexBufPos s1 = CHUNKSIZE
         then (case write_file_index_buf L CHUNKSIZE fuel LZMA_RUN s1 of
                 None \<Rightarrow> None
               | Some (Inl e) \<Rightarrow> Some (Inl e)
               | Some (Inr s2) \<Rightarrow>
                   write_file_index_bytes_from L CHUNKSIZE fuel data
                     (bufpos + len) (s2\<lparr>gFileIndexBufPos := 0\<rparr>))
         else write_file_index_bytes_from L CHUNKSIZE fuel data (bufpos + len) s1)"
      by blast
    have meas: "length data - (bufpos + len) < length data - bufpos"
      using len True by simp
    have sink1: "sink_ok s1"
      using inv(3) st1 by (simp add: sink_ok_def)
    show ?thesis
    proof (cases "gFileIndexBufPos s1 = CHUNKSIZE")
      case False
      then have lt: "gFileIndexBufPos s1 < CHUNKSIZE"
        using len pos1 by simp
      have un: "write_file_index_bytes_from L CHUNKSIZE fuel data bufpos s =
                write_file_index_bytes_from L CHUNKSIZE fuel data (bufpos + len) s1"
        unfolding unfold using False by simp
      from less.hyps[OF meas lbuf lt sink1]
      show ?thesis
        unfolding un .
    next
      case full: True
      have "gFileIndexBufPos s1 < fuel"
        using full fuel by simp
      have "0 < CHUNKSIZE"
        using inv(2) by simp
      from write_file_index_buf_total[OF pr sink1 \<open>gFileIndexBufPos s1 < fuel\<close> this, of LZMA_RUN]
      obtain s2 where s2: "write_file_index_buf L CHUNKSIZE fuel LZMA_RUN s1 = Some (Inr s2)"
        "sink_ok s2"
        by blast
      let ?s3 = "s2\<lparr>gFileIndexBufPos := 0\<rparr>"
      have "gFileIndexBuf s2 = gFileIndexBuf s1"
        using write_file_index_buf_frame[OF s2(1)] by simp
      then have l3: "length (gFileIndexBuf ?s3) = CHUNKSIZE"
        using lbuf by simp
      have p3: "gFileIndexBufPos ?s3 < CHUNKSIZE"
        using inv by simp
      have sink3: "sink_ok ?s3"
        using s2(2) by (simp add: sink_ok_def)
      have un: "write_file_index_bytes_from L CHUNKSIZE fuel data bufpos s =
                write_file_index_bytes_from L CHUNKSIZE fuel data (bufpos + len) ?s3"
        unfolding unfold using full s2(1) by simp
      from less.hyps[OF meas l3 p3 sink3]
      show ?thesis
        unfolding un .
    qed
  qed
qed

lemma write_file_index_bytes_total:
  assumes "codec_progress L" and "CHUNKSIZE < fuel" and "stream_ok CHUNKSIZE s" and "sink_ok s"
  shows "\<exists>s'. write_file_index_bytes L CHUNKSIZE fuel data s = Some (Inr s') \<and>
              stream_ok CHUNKSIZE s' \<and> sink_ok s'"
  using write_file_index_bytes_from_total[OF assms(1,2), of s data 0] assms(3,4)
  by (simp add: write_file_index_bytes_def stream_ok_def)

lemma write_arrays_total:
  assumes "codec_progress L" and "CHUNKSIZE < fuel"
  shows "stream_ok CHUNKSIZE s \<Longrightarrow> sink_ok s \<Longrightarrow>
         \<exists>s'. write_arrays L CHUNKSIZE fuel arrays s = Some (Inr s') \<and>
              stream_ok CHUNKSIZE s' \<and> sink_ok s'"
proof (induction arrays arbitrary: s)
  case Nil
  then show ?case by simp
next
  case (Cons d ds)
  from write_file_index_bytes_total[OF assms Cons.prems, of d]
  obtain s1 where s1: "write_file_index_bytes L CHUNKSIZE fuel d s = Some (Inr s1)"
    "stream_ok CHUNKSIZE s1" "sink_ok s1"
    by blast
  from Cons.IH[OF s1(2,3)] s1(1) show ?case
    by simp
qed

lemma store_codec_ok: "codec_ok store_codec" "codec_progress store_codec"
  by (auto simp: codec_ok_def codec_progress_def store_codec_def)

lemma write_file_index_bytes_from_chunks:
  assumes ok: "codec_ok L"
  shows "length (gFileIndexBuf s) = CHUNKSIZE \<Longrightarrow> gFileIndexBufPos s < CHUNKSIZE \<Longrightarrow>
     write_file_index_bytes_from L CHUNKSIZE fuel data bufpos s = Some (Inr s') \<Longrightarrow>
     \<exists>k. length (consumed (gStream s')) = length (consumed (gStream s)) + k * CHUNKSIZE"
proof (induction "length data - bufpos" arbitrary: bufpos s rule: less_induct)
  case less
  note inv = less.prems(1,2) and run = less.prems(3)
  show ?case
  proof (cases "bufpos < length data")
    case False
    with run have "s' = s"
      by (simp add: write_file_index_bytes_from.simps)
    then show ?thesis
      by (intro exI[of _ 0]) simp
  next
    case True
    from write_file_index_bytes_from_step[OF inv True, of L fuel]
    obtain len chunk s1 where len: "0 < len" "bufpos + len \<le> length data"
        "gFileIndexBufPos s + len \<le> CHUNKSIZE"
      and lbuf: "length (gFileIndexBuf s1) = CHUNKSIZE"
      and pos1: "gFileIndexBufPos s1 = gFileIndexBufPos s + len"
      and st1: "gStream s1 = gStream s"
      and unfold: "write_file_index_bytes_from L CHUNKSIZE fuel data bufpos s =
        (if gFileIndexBufPos s1 = CHUNKSIZE
         then (case write_file_index_buf L CHUNKSIZE fuel LZMA_RUN s1 of
                 None \<Rightarrow> None
               | Some (Inl e) \<Rightarrow> Some (Inl e)
               | Some (Inr s2) \<Rightarrow>
                   write_file_index_bytes_from L CHUNKSIZE fuel data
                     (bufpos + len) (s2\<lparr>gFileIndexBufPos := 0\<rparr>))
         else write_file_index_bytes_from L CHUNKSIZE fuel data (bufpos + len) s1)"
      by blast
    have meas: "length data - (bufpos + len) < length data - bufpos"
      using len True by simp
    show ?thesis
    proof (cases "gFileIndexBufPos s1 = CHUNKSIZE")
      case False
      then have lt: "gFileIndexBufPos s1 < CHUNKSIZE"
        using len pos1 by simp
      have rec: "write_file_index_bytes_from L CHUNKSIZE fuel data (bufpos + len) s1 =
                 Some (Inr s')"
        using run False unfolding unfold by simp
      from less.hyps[OF meas lbuf lt rec] show ?thesis
        unfolding st1 .
    next
      case full: True
      from run full obtain s2 where
        fl: "write_file_index_buf L CHUNKSIZE fuel LZMA_RUN s1 = Some (Inr s2)"
        and rec: "write_file_index_bytes_from L CHUNKSIZE fuel data (bufpos + len)
                    (s2\<lparr>gFileIndexBufPos := 0\<rparr>) = Some (Inr s')"
        unfolding unfold by (auto split: option.splits sum.splits)
      let ?s3 = "s2\<lparr>gFileIndexBufPos := 0\<rparr>"
      note d = write_file_index_buf_delivers[OF ok fl]
      have l3: "length (gFileIndexBuf ?s3) = CHUNKSIZE"
        using d lbuf by simp
      have p3: "gFileIndexBufPos ?s3 < CHUNKSIZE"
        using inv by simp
      have "length (buffered s1) = CHUNKSIZE"
        using full lbuf by (simp add: buffered_def)
      then have c3: "length (consumed (gStream ?s3)) =
                     length (consumed (gStream s)) + CHUNKSIZE"
        using d st1 by simp
      from less.hyps[OF meas l3 p3 rec] obtain k where
        "length (consumed (gStream s')) = length (consumed (gStream ?s3)) + k * CHUNKSIZE"
        by blast
      then have "length (consumed (gStream s')) =
                 length (consumed (gStream s)) + Suc k * CHUNKSIZE"
        unfolding c3 by simp
      then show ?thesis
        by blast
    qed
  qed
qed

lemma write_arrays_chunks:
  assumes ok: "codec_ok L"
  shows "stream_ok CHUNKSIZE s \<Longrightarrow> write_arrays L CHUNKSIZE fuel arrays s = Some (Inr s') \<Longrightarrow>
         \<exists>k. length (consumed (gStream s')) = length (consumed (gStream s)) + k * CHUNKSIZE"
proof (induction arrays arbitrary: s)
  case Nil
  then show ?case
    by (intro exI[of _ 0]) simp
next
  case (Cons d ds)
  from Cons.prems(2) obtain s1 where
    s1: "write_file_index_bytes L CHUNKSIZE fuel d s = Some (Inr s1)"
    and rec: "write_arrays L CHUNKSIZE fuel ds s1 = Some (Inr s')"
    by (auto split: option.splits sum.splits)
  from write_file_index_bytes_delivers(2)[OF ok Cons.prems(1) s1]
  have st1: "stream_ok CHUNKSIZE s1"
    by simp
  from Cons.prems(1) s1 write_file_index_bytes_from_chunks[OF ok, of s CHUNKSIZE fuel d 0 s1]
  obtain k1 where k1: "length (consumed (gStream s1)) =
                       length (consumed (gStream s)) + k1 * CHUNKSIZE"
    by (auto simp: stream_ok_def write_file_index_bytes_def)
  from Cons.IH[OF st1 rec] obtain k2 where
    "length (consumed (gStream s')) = length (consumed (gStream s1)) + k2 * CHUNKSIZE"
    by blast
  then have "length (consumed (gStream s')) =
             length (consumed (gStream s)) + (k1 + k2) * CHUNKSIZE"
    unfolding k1 by (simp add: algebra_simps)
  then show ?case
    by blast
qed

lemma index_run_value:
  "write_arrays store_codec 4 (Suc (Suc (Suc (Suc (Suc 0))))) [[1, 2, 3], [4, 5, 6, 7, 8, 9]]
     index_start =
   Some (Inr (index_start\<lparr>gOutFile := \<lparr>o_data = [1, 2, 3, 4, 5, 6, 7, 8], o_room = None\<rparr>,
      gStream := \<lparr>coder = Some (), next_in = [], consumed = [1, 2, 3, 4, 5, 6, 7, 8]\<rparr>,
      gFileIndexBuf := [9, 6, 7, 8], gFileIndexBufPos := 1\<rparr>))"
  by (simp add: index_start_def example_start_value write_file_index_bytes_def
      write_file_index_bytes_from.simps write_file_index_buf_def size_sub_def buf_write_def
      store_codec_def fwrite_def example_out_def Let_def)

lemma index_start_facts:
  "length (gFileIndexBuf index_start) = 4 \<and> gFileIndexBufPos index_start < 4 \<and>
   sink_ok index_start \<and> consumed (gStream index_start) = [] \<and> buffered index_start = []"
  by (simp add: index_start_def example_start_value sink_ok_def example_out_def buffered_def)

text \<open>
  C10. The buffered writer is transparent, given an encoder that has consumed all its
  input whenever it reports the end of the stream. From a state in which \<open>gFileIndexBuf\<close>
  is the array of \<open>CHUNKSIZE\<close> bytes and \<open>gFileIndexBufPos\<close> is below \<open>CHUNKSIZE\<close>, a
  sequence of \<open>write_file_index_bytes\<close> calls never copies past the end of the array, and
  when it returns, \<open>gFileIndexBufPos\<close> is below \<open>CHUNKSIZE\<close> again, the bytes the encoder
  has consumed followed by the bytes waiting in the buffer are what they were before
  followed by the arrays written, in order, and the encoder has been given a whole number
  of buffers of \<open>CHUNKSIZE\<close> bytes; after the final \<open>write_file_index_buf(LZMA_FINISH)\<close> the
  encoder has consumed all of it and the buffer is empty. With an encoder that makes
  progress, an output file that takes every write and more than \<open>CHUNKSIZE\<close> steps of
  fuel, the calls and the final flush do return.
\<close>

theorem buffered_writer_transparent:
  "(codec_ok L \<and> length (gFileIndexBuf s) = CHUNKSIZE \<and> gFileIndexBufPos s < CHUNKSIZE \<longrightarrow>
     write_arrays L CHUNKSIZE fuel arrays s \<noteq> Some (Inl Crash) \<and>
     (\<forall>s1. write_arrays L CHUNKSIZE fuel arrays s = Some (Inr s1) \<longrightarrow>
        gFileIndexBufPos s1 < CHUNKSIZE \<and>
        consumed (gStream s1) @ buffered s1 =
          consumed (gStream s) @ buffered s @ concat arrays \<and>
        (\<exists>k. length (consumed (gStream s1)) =
               length (consumed (gStream s)) + k * CHUNKSIZE) \<and>
        write_file_index_buf L CHUNKSIZE fuel LZMA_FINISH s1 \<noteq> Some (Inl Crash) \<and>
        (\<forall>s'. write_file_index_buf L CHUNKSIZE fuel LZMA_FINISH s1 = Some (Inr s') \<longrightarrow>
           consumed (gStream s') = consumed (gStream s) @ buffered s @ concat arrays \<and>
           gFileIndexBufPos s' = 0))) \<and>
   (codec_progress L \<and> CHUNKSIZE < fuel \<and> length (gFileIndexBuf s) = CHUNKSIZE \<and>
    gFileIndexBufPos s < CHUNKSIZE \<and> sink_ok s \<longrightarrow>
     (\<exists>s1 s'. write_arrays L CHUNKSIZE fuel arrays s = Some (Inr s1) \<and>
              write_file_index_buf L CHUNKSIZE fuel LZMA_FINISH s1 = Some (Inr s')))"
proof -
  have a: "write_arrays L CHUNKSIZE fuel arrays s \<noteq> Some (Inl Crash)"
    if "codec_ok L" "stream_ok CHUNKSIZE s"
    using write_arrays_delivers[OF that, of fuel arrays] by blast
  have b: "gFileIndexBufPos s1 < CHUNKSIZE \<and>
        consumed (gStream s1) @ buffered s1 =
          consumed (gStream s) @ buffered s @ concat arrays \<and>
        (\<exists>k. length (consumed (gStream s1)) =
               length (consumed (gStream s)) + k * CHUNKSIZE) \<and>
        write_file_index_buf L CHUNKSIZE fuel LZMA_FINISH s1 \<noteq> Some (Inl Crash)"
    if ok: "codec_ok L" and st: "stream_ok CHUNKSIZE s"
      and run: "write_arrays L CHUNKSIZE fuel arrays s = Some (Inr s1)" for s1
    using write_arrays_delivers[OF ok st, of fuel arrays] run
      write_arrays_chunks[OF ok st run] write_file_index_buf_no_crash
    by (simp add: stream_ok_def)
  have c: "consumed (gStream s') = consumed (gStream s) @ buffered s @ concat arrays \<and>
           gFileIndexBufPos s' = 0"
    if ok: "codec_ok L" and st: "stream_ok CHUNKSIZE s"
      and run: "write_arrays L CHUNKSIZE fuel arrays s = Some (Inr s1)"
      and fl: "write_file_index_buf L CHUNKSIZE fuel LZMA_FINISH s1 = Some (Inr s')" for s1 s'
  proof -
    from b[OF ok st run] have "consumed (gStream s1) @ buffered s1 =
        consumed (gStream s) @ buffered s @ concat arrays"
      by simp
    with write_file_index_buf_delivers[OF ok fl] show ?thesis
      by simp
  qed
  have d: "\<exists>s1 s'. write_arrays L CHUNKSIZE fuel arrays s = Some (Inr s1) \<and>
              write_file_index_buf L CHUNKSIZE fuel LZMA_FINISH s1 = Some (Inr s')"
    if pr: "codec_progress L" and fuel: "CHUNKSIZE < fuel" and st: "stream_ok CHUNKSIZE s"
      and sink: "sink_ok s"
  proof -
    from write_arrays_total[OF pr fuel st sink, of arrays] obtain s1 where
      s1: "write_arrays L CHUNKSIZE fuel arrays s = Some (Inr s1)" "stream_ok CHUNKSIZE s1"
      "sink_ok s1"
      by blast
    then have "gFileIndexBufPos s1 < fuel" "0 < CHUNKSIZE"
      using fuel by (simp_all add: stream_ok_def)
    from write_file_index_buf_total[OF pr s1(3) this, of LZMA_FINISH] s1(1)
    show ?thesis
      by blast
  qed
  show ?thesis
    using a b c d unfolding stream_ok_def by blast
qed


theorem buffered_writer_transparent_witness:
  "codec_ok store_codec \<and> codec_progress store_codec \<and>
   length (gFileIndexBuf index_start) = 4 \<and> gFileIndexBufPos index_start < 4 \<and>
   sink_ok index_start \<and>
   (\<exists>s1 s'. write_arrays store_codec 4 (Suc (Suc (Suc (Suc (Suc 0)))))
               [[1, 2, 3], [4, 5, 6, 7, 8, 9]] index_start = Some (Inr s1) \<and>
            consumed (gStream s1) = [1, 2, 3, 4, 5, 6, 7, 8] \<and> buffered s1 = [9] \<and>
            gFileIndexBufPos s1 = 1 \<and>
            write_file_index_buf store_codec 4 (Suc (Suc (Suc (Suc (Suc 0))))) LZMA_FINISH s1 =
              Some (Inr s') \<and>
            consumed (gStream s') = [1, 2, 3, 4, 5, 6, 7, 8, 9] \<and> gFileIndexBufPos s' = 0)"
proof -
  let ?fuel = "Suc (Suc (Suc (Suc (Suc 0))))"
  let ?arrays = "[[1, 2, 3], [4, 5, 6, 7, 8, 9 :: byte]]"
  let ?s1 = "index_start\<lparr>gOutFile := \<lparr>o_data = [1, 2, 3, 4, 5, 6, 7, 8], o_room = None\<rparr>,
      gStream := \<lparr>coder = Some (), next_in = [], consumed = [1, 2, 3, 4, 5, 6, 7, 8]\<rparr>,
      gFileIndexBuf := [9, 6, 7, 8], gFileIndexBufPos := 1\<rparr>"
  have f: "(4::nat) < ?fuel"
    by simp
  note t = buffered_writer_transparent[where L = store_codec and CHUNKSIZE = 4
      and fuel = ?fuel and arrays = ?arrays and s = index_start]
  from t store_codec_ok index_start_facts f obtain s1 s' where
    run: "write_arrays store_codec 4 ?fuel ?arrays index_start = Some (Inr s1)"
    and fl: "write_file_index_buf store_codec 4 ?fuel LZMA_FINISH s1 = Some (Inr s')"
    by blast
  from t store_codec_ok index_start_facts run fl
  have c: "consumed (gStream s') = consumed (gStream index_start) @ buffered index_start @
             concat ?arrays \<and> gFileIndexBufPos s' = 0"
    by blast
  have s1: "s1 = ?s1"
    using run index_run_value by simp
  have v: "consumed (gStream s1) = [1, 2, 3, 4, 5, 6, 7, 8] \<and> buffered s1 = [9] \<and>
           gFileIndexBufPos s1 = 1"
    unfolding s1 by (simp add: buffered_def)
  from c have c': "consumed (gStream s') = [1, 2, 3, 4, 5, 6, 7, 8, 9] \<and>
                   gFileIndexBufPos s' = 0"
    using index_start_facts by simp
  show ?thesis
    using store_codec_ok index_start_facts run fl v c' by blast
qed

lemma xle64enc_le64: "xle64enc n = le64 n"
  by (simp add: xle64enc_def le64_def upt_rec)

lemma entry_arrays_record:
  "(case name f of None \<Rightarrow> True | Some n \<Rightarrow> cstring n) \<Longrightarrow>
   concat (entry_arrays f) = index_record f"
  by (auto simp: entry_arrays_def index_record_def c_bytes_def strlen_length
      xle64enc_le64 split: option.splits)

lemma write_entries_arrays:
  "write_entries L CHUNKSIZE fuel fs s =
   write_arrays L CHUNKSIZE fuel (concat (map entry_arrays fs)) s"
proof (induction fs arbitrary: s)
  case Nil
  show ?case by simp
next
  case (Cons f fs)
  show ?case
    by (simp add: Cons entry_arrays_def Let_def split: option.splits sum.splits)
qed

lemma entry_arrays_payload:
  "\<forall>f\<in>set fs. (case name f of None \<Rightarrow> True | Some n \<Rightarrow> cstring n) \<Longrightarrow>
   concat (concat (map entry_arrays fs)) = index_payload fs"
  by (induction fs) (simp_all add: index_payload_def entry_arrays_record)

lemma write_file_index_parts:
  assumes "write_file_index L CHUNKSIZE CHECK fuel s = Some (Inr s')"
  shows "\<exists>f e s2 s3 i.
     write_arrays L CHUNKSIZE fuel (concat (map entry_arrays (gFileIndex s)))
       (s\<lparr>gOutFile := f, gStream := (gStream s)\<lparr>coder := Some e, consumed := []\<rparr>\<rparr>) =
       Some (Inr s2) \<and>
     write_file_index_buf L CHUNKSIZE fuel LZMA_FINISH s2 = Some (Inr s3) \<and>
     s' = s3\<lparr>gIndex := i, gStream := (gStream s3)\<lparr>coder := None\<rparr>\<rparr>"
  using assms
  by (auto simp: write_file_index_def Let_def write_entries_arrays
           split: sum.splits option.splits prod.splits if_splits) blast+

lemma write_file_index_delivers:
  assumes ok: "codec_ok L" and len: "length (gFileIndexBuf s) = CHUNKSIZE"
    and pos: "gFileIndexBufPos s = 0" and chunk: "0 < CHUNKSIZE"
    and names: "\<forall>f\<in>set (gFileIndex s). (case name f of None \<Rightarrow> True | Some n \<Rightarrow> cstring n)"
    and run: "write_file_index L CHUNKSIZE CHECK fuel s = Some (Inr s')"
  shows "consumed (gStream s') = index_payload (gFileIndex s) \<and> gFileIndex s' = gFileIndex s"
proof -
  from write_file_index_parts[OF run] obtain f e s2 s3 i where
    wa: "write_arrays L CHUNKSIZE fuel (concat (map entry_arrays (gFileIndex s)))
       (s\<lparr>gOutFile := f, gStream := (gStream s)\<lparr>coder := Some e, consumed := []\<rparr>\<rparr>) =
       Some (Inr s2)"
    and fl: "write_file_index_buf L CHUNKSIZE fuel LZMA_FINISH s2 = Some (Inr s3)"
    and s': "s' = s3\<lparr>gIndex := i, gStream := (gStream s3)\<lparr>coder := None\<rparr>\<rparr>"
    by blast
  let ?s1 = "s\<lparr>gOutFile := f, gStream := (gStream s)\<lparr>coder := Some e, consumed := []\<rparr>\<rparr>"
  have st: "stream_ok CHUNKSIZE ?s1"
    using len pos chunk by (simp add: stream_ok_def)
  from write_arrays_delivers[OF ok st, of fuel "concat (map entry_arrays (gFileIndex s))"] wa
  have d2: "consumed (gStream s2) @ buffered s2 =
            consumed (gStream ?s1) @ buffered ?s1 @
              concat (concat (map entry_arrays (gFileIndex s)))"
    and u2: "unchanged ?s1 s2"
    by blast+
  have "buffered ?s1 = []"
    using pos by (simp add: buffered_def)
  with d2 have d2': "consumed (gStream s2) @ buffered s2 = index_payload (gFileIndex s)"
    using entry_arrays_payload[OF names] by simp
  from write_file_index_buf_delivers[OF ok fl] d2' u2 show ?thesis
    by (simp add: s' unchanged_def)
qed

lemma write_file_index_no_crash:
  assumes ok: "codec_ok L" and len: "length (gFileIndexBuf s) = CHUNKSIZE"
    and pos: "gFileIndexBufPos s = 0" and chunk: "0 < CHUNKSIZE"
  shows "write_file_index L CHUNKSIZE CHECK fuel s \<noteq> Some (Inl Crash)"
proof -
  have a: "write_arrays L CHUNKSIZE fuel arrays
       (s\<lparr>gOutFile := f, gStream := (gStream s)\<lparr>coder := Some e, consumed := []\<rparr>\<rparr>) \<noteq>
       Some (Inl Crash)" for f e arrays
    using write_arrays_delivers[OF ok, of CHUNKSIZE
        "s\<lparr>gOutFile := f, gStream := (gStream s)\<lparr>coder := Some e, consumed := []\<rparr>\<rparr>"
        fuel arrays] len pos chunk
    by (simp add: stream_ok_def)
  show ?thesis
    using a write_file_index_buf_no_crash[of L CHUNKSIZE fuel LZMA_FINISH]
    by (auto simp: write_file_index_def Let_def write_entries_arrays block_init_def
             split: sum.splits option.splits prod.splits if_splits)
qed

lemma write_file_index_total:
  assumes pr: "codec_progress L" and fuel: "CHUNKSIZE < fuel"
    and len: "length (gFileIndexBuf s) = CHUNKSIZE" and pos: "gFileIndexBufPos s = 0"
    and chunk: "0 < CHUNKSIZE" and room: "o_room (gOutFile s) = None"
    and bi: "block_init L CHECK = Inr blk" and hs: "0 < header_size blk"
    and he: "lzma_block_header_encode L blk \<noteq> None"
    and be: "lzma_block_encoder L blk \<noteq> None"
    and ia: "\<forall>i u c. lzma_index_append_ok L i u c"
  shows "\<exists>s'. write_file_index L CHUNKSIZE CHECK fuel s = Some (Inr s')"
proof -
  from he obtain hdr where hdr: "lzma_block_header_encode L blk = Some hdr"
    by blast
  from be obtain e where e: "lzma_block_encoder L blk = Some e"
    by blast
  obtain r f where fw: "fwrite hdr (header_size blk) (gOutFile s) = (r, f)"
    by (cases "fwrite hdr (header_size blk) (gOutFile s)")
  from fwrite_unlimited[OF room hs, of hdr] fw have r: "r = 1" and rf: "o_room f = None"
    by simp_all
  let ?s1 = "s\<lparr>gOutFile := f, gStream := (gStream s)\<lparr>coder := Some e, consumed := []\<rparr>\<rparr>"
  have st: "stream_ok CHUNKSIZE ?s1" and sk: "sink_ok ?s1"
    using len pos chunk rf by (simp_all add: stream_ok_def sink_ok_def)
  from write_arrays_total[OF pr fuel st sk, of "concat (map entry_arrays (gFileIndex s))"]
  obtain s2 where s2: "write_arrays L CHUNKSIZE fuel
      (concat (map entry_arrays (gFileIndex s))) ?s1 = Some (Inr s2)"
    "stream_ok CHUNKSIZE s2" "sink_ok s2"
    by blast
  have "gFileIndexBufPos s2 < fuel"
    using s2(2) fuel by (simp add: stream_ok_def)
  from write_file_index_buf_total[OF pr s2(3) this chunk, of LZMA_FINISH]
  obtain s3 where s3: "write_file_index_buf L CHUNKSIZE fuel LZMA_FINISH s2 = Some (Inr s3)"
    by blast
  show ?thesis
    using bi hdr fw r e s2(1) s3 ia
    by (simp add: write_file_index_def Let_def write_entries_arrays lzma_index_append_def)
qed

lemma member_run_index_state:
  "length (gFileIndexBuf (projr member_run)) = 4 \<and> gFileIndexBufPos (projr member_run) = 0 \<and>
   o_room (gOutFile (projr member_run)) = None"
  by (simp add: member_run_def reader_simps example_out_def)

lemma store_codec_block:
  "block_init store_codec 1 =
     Inr \<lparr>version = 0, header_size = 12, check = 1, compressed_size = LZMA_VLI_UNKNOWN,
          uncompressed_size = LZMA_VLI_UNKNOWN\<rparr> \<and>
   lzma_block_header_encode store_codec b \<noteq> None \<and> lzma_block_encoder store_codec b \<noteq> None \<and>
   (\<forall>i u c. lzma_index_append_ok store_codec i u c)"
  by (simp add: block_init_def store_codec_def)

lemma member_run_payload:
  "index_payload [\<lparr>name = Some ''a'', offset = 0\<rparr>, \<lparr>name = None, offset = 10\<rparr>] =
     [97, 0, 0, 0, 0, 0, 0, 0, 0, 0, 0, 10, 0, 0, 0, 0, 0, 0, 0]"
  by (simp add: index_payload_def index_record_def le64_def)

text \<open>
  C4. \<open>write_file_index\<close>, started with an empty buffer and given an encoder that has
  consumed all its input whenever it reports the end of the stream, copies nothing past
  the end of \<open>gFileIndexBuf\<close>, and when it returns, the bytes the block encoder has consumed
  since \<open>lzma_block_encoder\<close> are the file-index payload of the chain: for each entry in
  chain order the bytes of its name (none for the entry with the \<open>NULL\<close> name), one
  \<open>0x00\<close> byte, and its offset in the 8 bytes of \<open>xle64enc\<close>; the chain itself is
  unchanged. The names are C strings. With an encoder that makes progress, a codec that
  accepts the block, an output file that takes every write and more than \<open>CHUNKSIZE\<close>
  steps of fuel, \<open>write_file_index\<close> returns.
\<close>

theorem file_index_payload:
  "(codec_ok L \<and> length (gFileIndexBuf s) = CHUNKSIZE \<and> gFileIndexBufPos s = 0 \<and>
    0 < CHUNKSIZE \<and>
    (\<forall>f\<in>set (gFileIndex s). case name f of None \<Rightarrow> True | Some n \<Rightarrow> cstring n) \<longrightarrow>
      write_file_index L CHUNKSIZE CHECK fuel s \<noteq> Some (Inl Crash) \<and>
      (\<forall>s'. write_file_index L CHUNKSIZE CHECK fuel s = Some (Inr s') \<longrightarrow>
         consumed (gStream s') = index_payload (gFileIndex s) \<and>
         gFileIndex s' = gFileIndex s)) \<and>
   (codec_progress L \<and> CHUNKSIZE < fuel \<and> length (gFileIndexBuf s) = CHUNKSIZE \<and>
    gFileIndexBufPos s = 0 \<and> 0 < CHUNKSIZE \<and> o_room (gOutFile s) = None \<and>
    block_init L CHECK = Inr blk \<and> 0 < header_size blk \<and>
    lzma_block_header_encode L blk \<noteq> None \<and> lzma_block_encoder L blk \<noteq> None \<and>
    (\<forall>i u c. lzma_index_append_ok L i u c) \<longrightarrow>
      (\<exists>s'. write_file_index L CHUNKSIZE CHECK fuel s = Some (Inr s'))) \<and>
   index_payload (f # fs) =
     (case name f of None \<Rightarrow> [] | Some n \<Rightarrow> map of_char n) @ [0] @ xle64enc (offset f) @
     index_payload fs \<and>
   index_payload [] = []"
proof -
  have a: "write_file_index L CHUNKSIZE CHECK fuel s \<noteq> Some (Inl Crash)"
    if "codec_ok L" "length (gFileIndexBuf s) = CHUNKSIZE" "gFileIndexBufPos s = 0"
      "0 < CHUNKSIZE"
    using write_file_index_no_crash[OF that] .
  have b: "consumed (gStream s') = index_payload (gFileIndex s) \<and>
           gFileIndex s' = gFileIndex s"
    if "codec_ok L" "length (gFileIndexBuf s) = CHUNKSIZE" "gFileIndexBufPos s = 0"
      "0 < CHUNKSIZE"
      "\<forall>f\<in>set (gFileIndex s). case name f of None \<Rightarrow> True | Some n \<Rightarrow> cstring n"
      "write_file_index L CHUNKSIZE CHECK fuel s = Some (Inr s')" for s'
    using write_file_index_delivers[OF that] .
  have c: "\<exists>s'. write_file_index L CHUNKSIZE CHECK fuel s = Some (Inr s')"
    if "codec_progress L" "CHUNKSIZE < fuel" "length (gFileIndexBuf s) = CHUNKSIZE"
      "gFileIndexBufPos s = 0" "0 < CHUNKSIZE" "o_room (gOutFile s) = None"
      "block_init L CHECK = Inr blk" "0 < header_size blk"
      "lzma_block_header_encode L blk \<noteq> None" "lzma_block_encoder L blk \<noteq> None"
      "\<forall>i u c. lzma_index_append_ok L i u c"
    using write_file_index_total[OF that] .
  have d: "index_payload (f # fs) =
     (case name f of None \<Rightarrow> [] | Some n \<Rightarrow> map of_char n) @ [0] @ xle64enc (offset f) @
     index_payload fs" "index_payload [] = []"
    by (simp_all add: index_payload_def index_record_def xle64enc_le64)
  show ?thesis
    using a b c d by blast
qed


theorem file_index_payload_witness:
  "codec_ok store_codec \<and> codec_progress store_codec \<and>
   length (gFileIndexBuf (projr member_run)) = 4 \<and> gFileIndexBufPos (projr member_run) = 0 \<and>
   o_room (gOutFile (projr member_run)) = None \<and>
   gFileIndex (projr member_run) =
     [\<lparr>name = Some ''a'', offset = 0\<rparr>, \<lparr>name = None, offset = 10\<rparr>] \<and>
   cstring ''a'' \<and>
   (\<exists>s'. write_file_index store_codec 4 1 (Suc (Suc (Suc (Suc (Suc 0))))) (projr member_run) =
           Some (Inr s') \<and>
         consumed (gStream s') = [97, 0, 0, 0, 0, 0, 0, 0, 0, 0, 0, 10, 0, 0, 0, 0, 0, 0, 0])"
proof -
  let ?fuel = "Suc (Suc (Suc (Suc (Suc 0))))"
  let ?blk = "\<lparr>version = 0, header_size = 12, check = 1, compressed_size = LZMA_VLI_UNKNOWN,
          uncompressed_size = LZMA_VLI_UNKNOWN\<rparr>"
  have ix: "gFileIndex (projr member_run) =
     [\<lparr>name = Some ''a'', offset = 0\<rparr>, \<lparr>name = None, offset = 10\<rparr>]"
    using member_run_value by simp
  have cs: "cstring ''a''"
    by (simp add: cstring_def)
  have names: "\<forall>f\<in>set (gFileIndex (projr member_run)).
                 case name f of None \<Rightarrow> True | Some n \<Rightarrow> cstring n"
    unfolding ix using cs by simp
  have f: "(4::nat) < ?fuel" "(0::nat) < 4" "0 < header_size ?blk"
    by simp_all
  note t = file_index_payload[where L = store_codec and CHUNKSIZE = 4 and CHECK = 1
      and fuel = ?fuel and s = "projr member_run" and blk = ?blk]
  from t store_codec_ok member_run_index_state store_codec_block f obtain s' where
    run: "write_file_index store_codec 4 1 ?fuel (projr member_run) = Some (Inr s')"
    by blast
  from t store_codec_ok member_run_index_state f names run
  have "consumed (gStream s') = index_payload (gFileIndex (projr member_run))"
    by blast
  then have "consumed (gStream s') = [97, 0, 0, 0, 0, 0, 0, 0, 0, 0, 0, 10, 0, 0, 0, 0, 0, 0, 0]"
    unfolding ix member_run_payload .
  with run store_codec_ok member_run_index_state ix cs show ?thesis
    by blast
qed

section \<open>Properties of the startup\<close>

lemma new_block_queue: "new_block (s\<lparr>gReadQ := q\<rparr>) = new_block s"
  by (simp add: new_block_def)

lemma fill_free_queue_blocks:
  "gReadQ (fill_free_queue k s) = gReadQ s @ replicate k (MSG_BLOCK (new_block s)) \<and>
   gReadBlock (fill_free_queue k s) = gReadBlock s \<and>
   gWriteQ (fill_free_queue k s) = gWriteQ s"
proof (induction k arbitrary: s)
  case 0
  show ?case by simp
next
  case (Suc k)
  show ?case
    by (simp add: Suc new_block_queue queue_push_def replicate_app_Cons_same)
qed

lemma block_count_small: "n * 2 + 4 < 2 ^ 31 \<Longrightarrow> block_count n = 2 * n + 4"
  by (simp add: block_count_def size_to_int_def int_to_size_def Let_def)


lemma main_setup_value:
  assumes "n * 2 + 4 < 2 ^ 31" and "lzma_lzma_preset L = Some d"
  shows "\<exists>s. main_setup L CHUNKSIZE n fin fout = Inr s \<and>
           gBlockInSize s = 2 * d \<and>
           gBlockOutSize s = lzma_block_buffer_bound L (2 * d) \<and>
           gReadQ s = replicate (2 * n + 4) (MSG_BLOCK (new_block s)) \<and>
           length (input_buf (new_block s)) = gBlockInSize s \<and>
           length (output_buf (new_block s)) = gBlockOutSize s \<and>
           gReadBlock s = None \<and> gEncodeQ s = [] \<and> gWriteQ s = []"
  using assms
  by (simp add: main_setup_def Let_def block_count_small fill_free_queue_blocks
      fill_free_queue_frame globals_init_def new_block_def malloc_def mult.commute)

lemma main_start_threads:
  "main_start L CHUNKSIZE n spawn fin fout = Inr (ths, s) \<Longrightarrow>
   main_setup L CHUNKSIZE n fin fout = Inr s \<and>
   ths = ReadThread # map EncodeThread [0..<gNumEncodeThreads s]"
  by (auto simp: main_start_def split: sum.splits if_splits)

lemma tar_read_sizes:
  assumes "tar_read CHUNKSIZE s = Inr (rd, s')"
  shows "same_sizes s s'"
proof -
  from assms obtain b s1 where acq: "acquire_block s = Inr (b, s1)"
    by (auto simp: tar_read_def split: sum.splits)
  have "same_sizes s s1"
    using acq by (auto simp: acquire_block_def Let_def queue_pop_def same_sizes_def
                       split: option.splits list.splits msg.splits)
  moreover have "same_sizes s1 s'"
    using assms acq
    by (auto simp: tar_read_def Let_def same_sizes_def split: option.splits if_splits prod.splits)
  ultimately show ?thesis
    by (simp add: same_sizes_def)
qed

lemma read_headers_sizes:
  "read_headers CHUNKSIZE script s = Inr s' \<Longrightarrow> same_sizes s s'"
proof (induction script arbitrary: s)
  case Nil
  then show ?case by (simp add: same_sizes_def)
next
  case (Cons e es)
  show ?case
  proof (cases e)
    case Pull
    with Cons.prems obtain rd s1 where tr: "tar_read CHUNKSIZE s = Inr (rd, s1)"
      and rest: "read_headers CHUNKSIZE es s1 = Inr s'"
      by (auto split: sum.splits)
    from tar_read_sizes[OF tr] Cons.IH[OF rest] show ?thesis
      by (simp add: same_sizes_def)
  next
    case (Header pos nm)
    with Cons.prems have "read_headers CHUNKSIZE es (add_file pos nm s) = Inr s'"
      by simp
    from Cons.IH[OF this] show ?thesis
      by (simp add: same_sizes_def add_file_reader_fields)
  next
    case Failure
    with Cons.prems show ?thesis by simp
  qed
qed

lemma read_thread_sizes:
  assumes "read_thread CHUNKSIZE script joined s = Inr s'"
  shows "same_sizes s s'"
proof -
  from assms obtain s1 where rh: "read_headers CHUNKSIZE script s = Inr s1"
    by (auto simp: read_thread_def split: sum.splits)
  have "same_sizes s1 s'"
    using assms rh
    by (auto simp: read_thread_def Let_def flush_last_def add_file_reader_fields same_sizes_def
             split: if_splits option.splits)
  with read_headers_sizes[OF rh] show ?thesis
    by (simp add: same_sizes_def)
qed

lemma encode_thread_sizes:
  "encode_thread L CHECK s = Inr s' \<Longrightarrow> same_sizes s s'"
proof (induction L CHECK s rule: encode_thread.induct)
  case (1 L CHECK s)
  show ?case
  proof (cases "queue_pop (gEncodeQ s)")
    case None
    with "1.prems" show ?thesis by simp
  next
    case (Some p)
    obtain m q where p: "p = (m, q)" by (cases p)
    note pop = Some[unfolded p]
    show ?thesis
    proof (cases m)
      case MSG_STOP
      with pop "1.prems" have "s' = s\<lparr>gEncodeQ := q\<rparr>"
        by simp
      then show ?thesis
        by (simp add: same_sizes_def)
    next
      case (MSG_BLOCK ib)
      note pop' = pop[unfolded MSG_BLOCK]
      from "1.prems" pop' obtain ib' where
        eb: "encode_block L CHECK (gBlockOutSize s) ib = Inr ib'"
        and rec: "encode_thread L CHECK
                 (s\<lparr>gEncodeQ := q,
                    gWriteQ := queue_push (gWriteQ s) (MSG_BLOCK ib')\<rparr>) = Inr s'"
        by (auto split: sum.splits)
      from "1.IH"[OF pop refl MSG_BLOCK eb rec] show ?thesis
        by (simp add: same_sizes_def)
    qed
  qed
qed

lemma write_blocks_sizes:
  "write_blocks L ibs sq s = Inr (ibs', sq', s') \<Longrightarrow> same_sizes s s'"
proof (induction L ibs sq s arbitrary: ibs' sq' s' rule: write_blocks.induct)
  case (1 L ibs sq s)
  show ?case
  proof (cases "find_seq ibs sq")
    case None
    with "1.prems" have "s' = s"
      by simp
    then show ?thesis
      by (simp add: same_sizes_def)
  next
    case (Some p)
    obtain ib rest where p: "p = (ib, rest)"
      by (cases p)
    note found = Some[unfolded p]
    from write_blocks_step[OF found "1.prems"] obtain f i where
      fits: "\<not> length (output_buf ib) < outsize ib"
      and fw: "fwrite (output_buf ib) (outsize ib) (gOutFile s) = (1, f)"
      and ia: "lzma_index_append L (gIndex s) (lzma_block_unpadded_size L (block ib))
             (uncompressed_size (block ib)) = Some i"
      and rec: "write_blocks L rest (sq + 1)
             (s\<lparr>gOutFile := f, gIndex := i,
                gReadQ := queue_push (gReadQ s) (MSG_BLOCK ib)\<rparr>) = Inr (ibs', sq', s')"
      by (auto simp: not_less)
    from "1.IH"[OF found refl fits fw[symmetric] _ ia rec] show ?thesis
      by (simp add: same_sizes_def)
  qed
qed

lemma writer_loop_sizes:
  "writer_loop L ibs sq s = Inr (ibs', sq', s') \<Longrightarrow> same_sizes s s'"
proof (induction L ibs sq s arbitrary: ibs' sq' s' rule: writer_loop.induct)
  case (1 L ibs sq s)
  show ?case
  proof (cases "queue_pop (gWriteQ s)")
    case None
    with "1.prems" show ?thesis
      by simp
  next
    case (Some p)
    obtain m q where p: "p = (m, q)"
      by (cases p)
    note pop = Some[unfolded p]
    show ?thesis
    proof (cases m)
      case MSG_STOP
      with pop "1.prems" have "s' = s\<lparr>gWriteQ := q\<rparr>"
        by simp
      then show ?thesis
        by (simp add: same_sizes_def)
    next
      case (MSG_BLOCK ib)
      note pop' = pop[unfolded MSG_BLOCK]
      from "1.prems"(1) pop' obtain ibs1 sq1 s1 where
        wb: "write_blocks L (ib # ibs) sq (s\<lparr>gWriteQ := q\<rparr>) = Inr (ibs1, sq1, s1)"
        and rec: "writer_loop L ibs1 sq1 s1 = Inr (ibs', sq', s')"
        by (auto split: sum.splits)
      from "1.IH"[OF pop refl MSG_BLOCK wb refl refl rec] write_blocks_sizes[OF wb]
      show ?thesis
        by (simp add: same_sizes_def)
    qed
  qed
qed

lemma write_file_index_bytes_from_sizes:
  "write_file_index_bytes_from L CHUNKSIZE fuel data bufpos s = Some (Inr s') \<Longrightarrow>
   same_sizes s s'"
proof (induction L CHUNKSIZE fuel data bufpos s rule: write_file_index_bytes_from.induct)
  case (1 L CHUNKSIZE fuel data bufpos s)
  show ?case
  proof (cases "bufpos < length data")
    case False
    with "1.prems" have "s' = s"
      by (simp add: write_file_index_bytes_from.simps)
    then show ?thesis
      by (simp add: same_sizes_def)
  next
    case True
    define len0 where "len0 = length data - bufpos"
    define space where "space = size_sub CHUNKSIZE (gFileIndexBufPos s)"
    define len where "len = (if space < len0 then space else len0)"
    note run = "1.prems"[unfolded write_file_index_bytes_from.simps[of L CHUNKSIZE fuel data bufpos s]]
    from run True have c0: "CHUNKSIZE \<noteq> 0"
      by (auto split: if_splits)
    from run True c0 have fits: "\<not> \<not> gFileIndexBufPos s + len \<le> CHUNKSIZE"
      by (auto simp: Let_def len_def space_def len0_def split: if_splits)
    from run True c0 fits obtain buf where
      bw: "buf_write (gFileIndexBuf s) (gFileIndexBufPos s) (take len (drop bufpos data)) =
           Some buf"
      by (auto simp: Let_def len_def space_def len0_def split: if_splits option.splits)
    define s1 where "s1 = s\<lparr>gFileIndexBuf := buf,
                             gFileIndexBufPos := gFileIndexBufPos s + len\<rparr>"
    have s1: "same_sizes s s1"
      by (simp add: s1_def same_sizes_def)
    have lenexp: "(if length data - bufpos > size_sub CHUNKSIZE (gFileIndexBufPos s)
                   then size_sub CHUNKSIZE (gFileIndexBufPos s)
                   else length data - bufpos) = len"
      by (simp add: len_def space_def len0_def)
    have unfold: "write_file_index_bytes_from L CHUNKSIZE fuel data bufpos s =
        (if gFileIndexBufPos s1 = CHUNKSIZE
         then (case write_file_index_buf L CHUNKSIZE fuel LZMA_RUN s1 of
                 None \<Rightarrow> None
               | Some (Inl e) \<Rightarrow> Some (Inl e)
               | Some (Inr s2) \<Rightarrow>
                   write_file_index_bytes_from L CHUNKSIZE fuel data
                     (bufpos + len) (s2\<lparr>gFileIndexBufPos := 0\<rparr>))
         else write_file_index_bytes_from L CHUNKSIZE fuel data (bufpos + len) s1)"
      using True c0 fits lenexp bw
      by (subst write_file_index_bytes_from.simps)
         (simp add: Let_def s1_def split del: if_split
               cong: if_cong option.case_cong sum.case_cong)
    show ?thesis
    proof (cases "gFileIndexBufPos s1 = CHUNKSIZE")
      case False
      have rec: "write_file_index_bytes_from L CHUNKSIZE fuel data (bufpos + len) s1 =
                 Some (Inr s')"
        using "1.prems" False unfolding unfold by simp
      from "1.IH"(2)[OF True c0 len0_def space_def len_def fits bw s1_def False rec] s1
      show ?thesis
        by (simp add: same_sizes_def)
    next
      case full: True
      from "1.prems" full obtain s2 where
        fl: "write_file_index_buf L CHUNKSIZE fuel LZMA_RUN s1 = Some (Inr s2)"
        and rec: "write_file_index_bytes_from L CHUNKSIZE fuel data (bufpos + len)
                    (s2\<lparr>gFileIndexBufPos := 0\<rparr>) = Some (Inr s')"
        unfolding unfold by (auto split: option.splits sum.splits)
      from "1.IH"(1)[OF \<open>bufpos < length data\<close> c0 len0_def space_def len_def fits bw s1_def
          full fl refl rec]
        write_file_index_buf_frame[OF fl] s1
      show ?thesis
        by (simp add: same_sizes_def)
    qed
  qed
qed

lemma write_arrays_sizes:
  "write_arrays L CHUNKSIZE fuel arrays s = Some (Inr s') \<Longrightarrow> same_sizes s s'"
proof (induction arrays arbitrary: s)
  case Nil
  then show ?case by (simp add: same_sizes_def)
next
  case (Cons d ds)
  from Cons.prems obtain s1 where
    s1: "write_file_index_bytes L CHUNKSIZE fuel d s = Some (Inr s1)"
    and rec: "write_arrays L CHUNKSIZE fuel ds s1 = Some (Inr s')"
    by (auto split: option.splits sum.splits)
  from write_file_index_bytes_from_sizes[OF s1[unfolded write_file_index_bytes_def]]
    Cons.IH[OF rec]
  show ?case
    by (simp add: same_sizes_def)
qed

lemma write_file_index_sizes:
  assumes "write_file_index L CHUNKSIZE CHECK fuel s = Some (Inr s')"
  shows "same_sizes s s'"
proof -
  from write_file_index_parts[OF assms] obtain f e s2 s3 i where
    wa: "write_arrays L CHUNKSIZE fuel (concat (map entry_arrays (gFileIndex s)))
       (s\<lparr>gOutFile := f, gStream := (gStream s)\<lparr>coder := Some e, consumed := []\<rparr>\<rparr>) =
       Some (Inr s2)"
    and fl: "write_file_index_buf L CHUNKSIZE fuel LZMA_FINISH s2 = Some (Inr s3)"
    and s': "s' = s3\<lparr>gIndex := i, gStream := (gStream s3)\<lparr>coder := None\<rparr>\<rparr>"
    by blast
  from write_arrays_sizes[OF wa] write_file_index_buf_frame[OF fl] show ?thesis
    by (simp add: s' same_sizes_def)
qed


lemma main_start_example:
  "main_start store_codec 4 1 (\<lambda>t. True) example_in example_out =
     Inr ([ReadThread, EncodeThread 0], example_start)"
  unfolding main_start_def main_setup_example by (simp add: example_start_value)

lemma member_run_index_run:
  "\<exists>s'. write_file_index store_codec 4 1 (Suc (Suc (Suc (Suc (Suc 0))))) (projr member_run) =
          Some (Inr s')"
  using write_file_index_total[where L = store_codec and CHUNKSIZE = 4 and CHECK = 1
      and fuel = "Suc (Suc (Suc (Suc (Suc 0))))" and s = "projr member_run"
      and blk = "\<lparr>version = 0, header_size = 12, check = 1,
                   compressed_size = LZMA_VLI_UNKNOWN, uncompressed_size = LZMA_VLI_UNKNOWN\<rparr>"]
    store_codec_ok member_run_index_state store_codec_block
  by simp

text \<open>
  C7 (as the code has it). When \<open>2N + 4\<close> fits an \<open>int\<close> (it is below \<open>2^31\<close>) and the
  preset is available, \<open>main\<close> reaches the creation of the threads with exactly \<open>2N + 4\<close>
  blocks in the free queue and nothing else in any queue, each block with an input
  buffer of \<open>gBlockInSize\<close> bytes and an output buffer of \<open>gBlockOutSize\<close> bytes, where
  \<open>gBlockInSize\<close> is twice the dictionary size of the preset and \<open>gBlockOutSize\<close> is
  \<open>lzma_block_buffer_bound(gBlockInSize)\<close>; the threads are started on that state. Neither
  the reader, nor an encoder thread, nor the writer's loop, nor \<open>write_file_index\<close>
  changes either size.
\<close>

theorem startup_blocks:
  "(n * 2 + 4 < 2 ^ 31 \<and> lzma_lzma_preset L = Some d \<longrightarrow>
     (\<exists>s. main_setup L CHUNKSIZE n fin fout = Inr s \<and>
          gBlockInSize s = 2 * d \<and>
          gBlockOutSize s = lzma_block_buffer_bound L (2 * d) \<and>
          gReadQ s = replicate (2 * n + 4) (MSG_BLOCK (new_block s)) \<and>
          length (input_buf (new_block s)) = gBlockInSize s \<and>
          length (output_buf (new_block s)) = gBlockOutSize s \<and>
          gReadBlock s = None \<and> gEncodeQ s = [] \<and> gWriteQ s = [])) \<and>
   (main_start L CHUNKSIZE n spawn fin fout = Inr (ths, s0) \<longrightarrow>
      main_setup L CHUNKSIZE n fin fout = Inr s0 \<and>
      ths = ReadThread # map EncodeThread [0..<gNumEncodeThreads s0]) \<and>
   (read_thread CHUNKSIZE script joined sr = Inr sr' \<longrightarrow> same_sizes sr sr') \<and>
   (encode_thread L CHECK se = Inr se' \<longrightarrow> same_sizes se se') \<and>
   (writer_loop L ibs sq sw = Inr (ibs', sq', sw') \<longrightarrow> same_sizes sw sw') \<and>
   (write_file_index L CHUNKSIZE CHECK fuel si = Some (Inr si') \<longrightarrow> same_sizes si si')"
  using main_setup_value[of n L d CHUNKSIZE fin fout]
    main_start_threads[of L CHUNKSIZE n spawn fin fout ths s0]
    read_thread_sizes[of CHUNKSIZE script joined sr sr']
    encode_thread_sizes[of L CHECK se se']
    writer_loop_sizes[of L ibs sq sw ibs' sq' sw']
    write_file_index_sizes[of L CHUNKSIZE CHECK fuel si si']
  by blast


theorem startup_blocks_witness:
  "(1::nat) * 2 + 4 < 2 ^ 31 \<and> lzma_lzma_preset store_codec = Some 4 \<and>
   main_setup store_codec 4 1 example_in example_out = Inr example_start \<and>
   gBlockInSize example_start = 8 \<and> gBlockOutSize example_start = 16 \<and>
   length (gReadQ example_start) = 6 \<and>
   main_start store_codec 4 1 (\<lambda>t. True) example_in example_out =
     Inr ([ReadThread, EncodeThread 0], example_start) \<and>
   same_sizes example_start (projr member_run) \<and>
   same_sizes (projr member_run) (projr (encode_thread store_codec 1 (projr member_run))) \<and>
   same_sizes writer_start (snd (snd (projr (writer_loop store_codec [] 0 writer_start)))) \<and>
   (\<exists>s'. write_file_index store_codec 4 1 (Suc (Suc (Suc (Suc (Suc 0))))) (projr member_run) =
           Some (Inr s') \<and> same_sizes (projr member_run) s')"
proof -
  let ?fuel = "Suc (Suc (Suc (Suc (Suc 0))))"
  obtain s' where ix: "write_file_index store_codec 4 1 ?fuel (projr member_run) =
                       Some (Inr s')"
    using member_run_index_run by blast
  have p: "lzma_lzma_preset store_codec = Some 4" "(1::nat) * 2 + 4 < 2 ^ 31"
    by (simp_all add: store_codec_def)
  have bound: "lzma_block_buffer_bound store_codec (2 * 4) = 16"
    by (simp add: store_codec_def)
  note t = startup_blocks[where n = 1 and L = store_codec and d = 4 and CHUNKSIZE = 4
      and fin = example_in and fout = example_out and spawn = "\<lambda>t. True"
      and ths = "[ReadThread, EncodeThread 0]" and ?s0.0 = example_start
      and script = "[Pull, Header 0 (Some ''._a''), Pull, Header 4 (Some ''a''), Pull]"
      and joined = True and sr = example_start and sr' = "projr member_run"
      and CHECK = 1 and se = "projr member_run"
      and se' = "projr (encode_thread store_codec 1 (projr member_run))"
      and ibs = "[]" and sq = 0 and sw = writer_start and ibs' = "[]" and sq' = 3
      and sw' = "snd (snd (projr (writer_loop store_codec [] 0 writer_start)))"
      and fuel = ?fuel and si = "projr member_run" and si' = s']
  from t p main_setup_example have
    a: "gBlockInSize example_start = 2 * 4 \<and>
        gBlockOutSize example_start = lzma_block_buffer_bound store_codec (2 * 4) \<and>
        gReadQ example_start = replicate (2 * 1 + 4) (MSG_BLOCK (new_block example_start))"
    by auto
  then have a': "gBlockInSize example_start = 8 \<and> gBlockOutSize example_start = 16 \<and>
                 length (gReadQ example_start) = 6"
    unfolding bound by simp
  from t member_run_read member_run_encoded writer_start_run ix have
    b: "same_sizes example_start (projr member_run) \<and>
        same_sizes (projr member_run) (projr (encode_thread store_codec 1 (projr member_run))) \<and>
        same_sizes writer_start (snd (snd (projr (writer_loop store_codec [] 0 writer_start)))) \<and>
        same_sizes (projr member_run) s'"
    by blast
  show ?thesis
    using p main_setup_example a' main_start_example b ix by blast
qed


end
